theory Spec2Isabelle
  imports Complex_Main "HOL-Library.Word" "HOL-Library.List_Lexorder"
begin

unbundle bit_operations_syntax

section \<open>Bytes and fixed-width encodings (sstable/sstable_format.h)\<close>

text \<open>
  A \<^verbatim>\<open>std::string\<close> or \<^verbatim>\<open>Slice\<close> is a list of bytes. The order of
  \<^verbatim>\<open>std::string::compare\<close> (bytes compared as unsigned char, a proper prefix
  is smaller) is the lexicographic order on lists of 8-bit words, whose \<open><\<close> is
  the unsigned one.
\<close>

type_synonym bytes = "8 word list"

definition bytes_of :: "string \<Rightarrow> bytes" where
  "bytes_of s = map (\<lambda>c. of_nat (of_char c)) s"

text \<open>\<^verbatim>\<open>FixedEncode::EncodeFixed32\<close>, \<^verbatim>\<open>EncodeFixed64\<close>: little-endian, byte i is
  \<^verbatim>\<open>(val >> (i * 8)) & 0xff\<close>.\<close>

definition EncodeFixed32 :: "32 word \<Rightarrow> bytes" where
  "EncodeFixed32 val =
     [ucast (val AND 0xff), ucast (drop_bit 8 val AND 0xff),
      ucast (drop_bit 16 val AND 0xff), ucast (drop_bit 24 val AND 0xff)]"

definition EncodeFixed64 :: "64 word \<Rightarrow> bytes" where
  "EncodeFixed64 val = map (\<lambda>i. ucast (drop_bit (i * 8) val AND 0xff)) [0..<8]"

text \<open>\<^verbatim>\<open>DecodeFixed32(p)\<close>, \<^verbatim>\<open>DecodeFixed64(p)\<close> read 4 and 8 bytes at \<open>p\<close> with no
  bounds check; a read past the end is undefined in the source and unspecified here
  (\<open>p ! i\<close>).\<close>

definition DecodeFixed32 :: "bytes \<Rightarrow> 32 word" where
  "DecodeFixed32 p =
     ucast (p ! 0) OR push_bit 8 (ucast (p ! 1)) OR push_bit 16 (ucast (p ! 2))
       OR push_bit 24 (ucast (p ! 3))"

definition DecodeFixed64 :: "bytes \<Rightarrow> 64 word" where
  "DecodeFixed64 p = fold (\<lambda>i result. result OR push_bit (i * 8) (ucast (p ! i))) [0..<8] 0"

text \<open>\<^verbatim>\<open>PutVarint32\<close> / \<^verbatim>\<open>PutVarint64\<close>: seven bits per byte, the high bit set on
  every byte but the last.\<close>

function PutVarint32 :: "32 word \<Rightarrow> bytes" where
  "PutVarint32 v = (if 128 \<le> v then ucast (v OR 128) # PutVarint32 (drop_bit 7 v) else [ucast v])"
  by pat_completeness auto
termination
proof (relation "measure unat")
  fix v :: "32 word"
  assume "128 \<le> v"
  then have "0 < unat v" by (simp add: word_le_nat_alt)
  then have "unat v div 2 ^ 7 < unat v" by (intro div_less_dividend) simp_all
  then show "(drop_bit 7 v, v) \<in> measure unat" by (simp add: drop_bit_eq_div unat_div)
qed simp

function PutVarint64 :: "64 word \<Rightarrow> bytes" where
  "PutVarint64 v = (if 128 \<le> v then ucast (v OR 128) # PutVarint64 (drop_bit 7 v) else [ucast v])"
  by pat_completeness auto
termination
proof (relation "measure unat")
  fix v :: "64 word"
  assume "128 \<le> v"
  then have "0 < unat v" by (simp add: word_le_nat_alt)
  then have "unat v div 2 ^ 7 < unat v" by (intro div_less_dividend) simp_all
  then show "(drop_bit 7 v, v) \<in> measure unat" by (simp add: drop_bit_eq_div unat_div)
qed simp

text \<open>\<^verbatim>\<open>BlockHandle::GetVarint64(Slice* input, uint64_t* value)\<close>: the loop runs while
  \<^verbatim>\<open>shift <= 63 && !input->empty()\<close>; the result is the value and the rest of the
  slice, or \<open>None\<close> for \<^verbatim>\<open>false\<close>.\<close>

fun GetVarint64 :: "nat \<Rightarrow> 64 word \<Rightarrow> bytes \<Rightarrow> (64 word \<times> bytes) option" where
  "GetVarint64 shift val [] = None"
| "GetVarint64 shift val (byte # rest) =
     (if shift \<le> 63 then
        (if byte AND 128 \<noteq> 0
         then GetVarint64 (shift + 7) (val OR push_bit shift (ucast (byte AND 127))) rest
         else Some (val OR push_bit shift (ucast byte), rest))
      else None)"

section \<open>Internal keys (util/types.h, sstable/sstable_writer.h)\<close>

datatype ValueType = kValue | kDeletion

fun ValueType_code :: "ValueType \<Rightarrow> 8 word" where
  "ValueType_code kValue = 0x01"
| "ValueType_code kDeletion = 0x02"

text \<open>\<^verbatim>\<open>SSTableWriter::EncodeInternalKey\<close>: the user key followed by
  \<^verbatim>\<open>(seq << 8) | type\<close> as eight little-endian bytes.\<close>

definition EncodeInternalKey :: "bytes \<Rightarrow> 64 word \<Rightarrow> ValueType \<Rightarrow> bytes" where
  "EncodeInternalKey user_key seq type =
     user_key @ EncodeFixed64 (push_bit 8 seq OR ucast (ValueType_code type))"

text \<open>\<^verbatim>\<open>SSTableWriter::ExtractUserKey\<close>.\<close>

definition ExtractUserKey :: "bytes \<Rightarrow> bytes" where
  "ExtractUserKey internal_key =
     (if length internal_key < 8 then internal_key
      else take (length internal_key - 8) internal_key)"

section \<open>Block handle and footer (sstable/sstable_format.h)\<close>

definition kSSTableMagic :: "64 word" where
  "kSSTableMagic = 0x53535461626C6531"

definition kFooterSize :: nat where
  "kFooterSize = 64"

definition kBlockTrailerSize :: nat where
  "kBlockTrailerSize = 5"

record BlockHandle =
  handle_offset :: "64 word"
  handle_size :: "64 word"

definition BlockHandle_Encode :: "BlockHandle \<Rightarrow> bytes" where
  "BlockHandle_Encode h = PutVarint64 (handle_offset h) @ PutVarint64 (handle_size h)"

definition BlockHandle_Decode :: "bytes \<Rightarrow> (BlockHandle \<times> bytes) option" where
  "BlockHandle_Decode input =
     (case GetVarint64 0 0 input of
        None \<Rightarrow> None
      | Some (off, rest) \<Rightarrow>
          (case GetVarint64 0 0 rest of
             None \<Rightarrow> None
           | Some (sz, rest') \<Rightarrow> Some (\<lparr>handle_offset = off, handle_size = sz\<rparr>, rest')))"

record Footer =
  index_handle :: BlockHandle
  bloom_handle :: BlockHandle
  num_entries :: "64 word"
  min_sequence :: "64 word"
  max_sequence :: "64 word"
  min_key :: bytes
  max_key :: bytes

text \<open>\<^verbatim>\<open>Footer::Encode\<close>. The lengths are cast to \<^verbatim>\<open>uint32_t\<close> (\<open>of_nat\<close> wraps);
  the padding loop \<^verbatim>\<open>while (result.size() < kFooterSize - 8) result.push_back(0)\<close>
  adds nothing once the fields already take 56 bytes or more.\<close>

definition Footer_fields :: "Footer \<Rightarrow> bytes" where
  "Footer_fields f =
     (let handle_enc = BlockHandle_Encode (index_handle f);
          bloom_enc = BlockHandle_Encode (bloom_handle f)
      in EncodeFixed32 (of_nat (length handle_enc)) @ handle_enc
         @ EncodeFixed32 (of_nat (length bloom_enc)) @ bloom_enc
         @ EncodeFixed64 (num_entries f) @ EncodeFixed64 (min_sequence f)
         @ EncodeFixed64 (max_sequence f)
         @ EncodeFixed32 (of_nat (length (min_key f))) @ min_key f
         @ EncodeFixed32 (of_nat (length (max_key f))) @ max_key f)"

definition Footer_Encode :: "Footer \<Rightarrow> bytes" where
  "Footer_Encode f =
     (let result = Footer_fields f
      in result @ replicate (kFooterSize - 8 - length result) 0 @ EncodeFixed64 kSSTableMagic)"

text \<open>\<^verbatim>\<open>Footer::Decode\<close>: \<open>None\<close> is \<^verbatim>\<open>false\<close>. The source builds the handle slices
  and the keys from the lengths it reads, without checking them against the input.\<close>

definition Footer_Decode :: "bytes \<Rightarrow> Footer option" where
  "Footer_Decode input =
     (if length input < kFooterSize then None
      else if DecodeFixed64 (drop (length input - 8) input) \<noteq> kSSTableMagic then None
      else
        let handle_len = unat (DecodeFixed32 input);
            p1 = drop 4 input
        in case BlockHandle_Decode (take handle_len p1) of
             None \<Rightarrow> None
           | Some (ih, _) \<Rightarrow>
               let p2 = drop handle_len p1;
                   bloom_len = unat (DecodeFixed32 p2);
                   p3 = drop 4 p2
               in case BlockHandle_Decode (take bloom_len p3) of
                    None \<Rightarrow> None
                  | Some (bh, _) \<Rightarrow>
                      let p4 = drop bloom_len p3;
                          n = DecodeFixed64 p4;
                          mn = DecodeFixed64 (drop 8 p4);
                          mx = DecodeFixed64 (drop 16 p4);
                          p5 = drop 24 p4;
                          min_key_len = unat (DecodeFixed32 p5);
                          p6 = drop 4 p5;
                          p7 = drop min_key_len p6;
                          max_key_len = unat (DecodeFixed32 p7)
                      in Some \<lparr>index_handle = ih, bloom_handle = bh, num_entries = n,
                                min_sequence = mn, max_sequence = mx,
                                min_key = take min_key_len p6,
                                max_key = take max_key_len (drop 4 p7)\<rparr>)"

section \<open>Bloom filter policy (util/bloom_filter.h)\<close>

text \<open>
  \<^verbatim>\<open>int k = static_cast<int>(bits_per_key * 0.69314718056)\<close>: the product is a
  double and the cast truncates towards zero. The model computes the truncated
  quotient exactly in integers. For every 32-bit \<open>bits_per_key\<close> the exact product
  is at least 0.01 away from every integer whenever it lies in \<open>[1, 31)\<close>, far
  more than the rounding error of the double product, so the clamped result is the
  same.
\<close>

definition trunc_quot :: "int \<Rightarrow> int \<Rightarrow> int" where
  "trunc_quot a b = sgn a * sgn b * (\<bar>a\<bar> div \<bar>b\<bar>)"

definition OptimalNumHashes :: "int \<Rightarrow> int" where
  "OptimalNumHashes bits_per_key =
     (let k = trunc_quot (bits_per_key * 69314718056) 100000000000;
          k = (if k < 1 then 1 else k);
          k = (if k > 30 then 30 else k)
      in k)"


definition BloomFilterPolicy_default_bits_per_key :: int where
  "BloomFilterPolicy_default_bits_per_key = 10"

section \<open>CRC-32 (wal/wal_format.h)\<close>

text \<open>
  Modelled from the spec: \<^verbatim>\<open>wal/wal_format.h\<close> (class \<^verbatim>\<open>CRC32\<close>, \<^verbatim>\<open>kHeaderSize\<close>,
  \<^verbatim>\<open>RecordType\<close>) is not among the sources. The spec gives CRC-32 with the IEEE
  802.3 polynomial \<^verbatim>\<open>0xEDB88320\<close>, the standard software table and a final XOR
  with \<^verbatim>\<open>0xFFFFFFFF\<close>; the test \<^verbatim>\<open>crc32_incremental\<close> fixes
  \<^verbatim>\<open>Compute(d) = Update(0xFFFFFFFF, d) ^ 0xFFFFFFFF\<close>. Table entry \<open>i\<close> is eight
  shift-and-conditionally-xor steps applied to \<open>i\<close>; one byte is consumed by
  \<^verbatim>\<open>crc = table[(crc ^ byte) & 0xFF] ^ (crc >> 8)\<close>.
\<close>

definition crc32_shift :: "32 word \<Rightarrow> 32 word" where
  "crc32_shift c = (if c AND 1 \<noteq> 0 then drop_bit 1 c XOR 0xEDB88320 else drop_bit 1 c)"

definition crc32_table :: "32 word \<Rightarrow> 32 word" where
  "crc32_table i = (crc32_shift ^^ 8) i"

definition crc32_byte :: "8 word \<Rightarrow> 32 word \<Rightarrow> 32 word" where
  "crc32_byte b crc = crc32_table ((crc XOR ucast b) AND 0xFF) XOR drop_bit 8 crc"

definition CRC32_Update :: "32 word \<Rightarrow> bytes \<Rightarrow> 32 word" where
  "CRC32_Update crc data = fold crc32_byte data crc"

definition CRC32_Compute :: "bytes \<Rightarrow> 32 word" where
  "CRC32_Compute data = CRC32_Update 0xFFFFFFFF data XOR 0xFFFFFFFF"

section \<open>Block builder and trailer (sstable/block_builder.h)\<close>

record BlockBuilder =
  bb_buffer :: bytes
  bb_restarts :: "32 word list"
  bb_last_key :: bytes
  bb_restart_interval :: int
  bb_counter :: int
  bb_finished :: bool

text \<open>
  The constructor, with its \<^verbatim>\<open>assert(restart_interval >= 1)\<close>. A failed \<^verbatim>\<open>assert\<close>
  aborts the program: the call does not return, which is the result \<open>None\<close>, here and
  in every function below that reaches an assertion.
\<close>

definition BlockBuilder_new :: "int \<Rightarrow> BlockBuilder option" where
  "BlockBuilder_new restart_interval =
     (if \<not> 1 \<le> restart_interval then None
      else Some \<lparr>bb_buffer = [], bb_restarts = [0], bb_last_key = [],
                 bb_restart_interval = restart_interval, bb_counter = 0, bb_finished = False\<rparr>)"

definition BlockBuilder_Reset :: "BlockBuilder \<Rightarrow> BlockBuilder" where
  "BlockBuilder_Reset b =
     b\<lparr>bb_buffer := [], bb_restarts := [0], bb_last_key := [], bb_counter := 0, bb_finished := False\<rparr>"

text \<open>The three assertions at the head of \<^verbatim>\<open>BlockBuilder::Add\<close>; the last one is the
  ordering contract: \<^verbatim>\<open>buffer_.empty() || key.compare(last_key_) > 0\<close>.\<close>

definition BlockBuilder_Add_asserts :: "BlockBuilder \<Rightarrow> bytes \<Rightarrow> bool" where
  "BlockBuilder_Add_asserts b key =
     (\<not> bb_finished b \<and> bb_counter b \<le> bb_restart_interval b
      \<and> (bb_buffer b = [] \<or> bb_last_key b < key))"

text \<open>The loop \<^verbatim>\<open>while (shared < min_len && last_key_[shared] == key[shared]) shared++\<close>.\<close>

fun shared_prefix :: "bytes \<Rightarrow> bytes \<Rightarrow> nat" where
  "shared_prefix (a # as) (b # bs) = (if a = b then Suc (shared_prefix as bs) else 0)"
| "shared_prefix _ _ = 0"

text \<open>\<^verbatim>\<open>BlockBuilder::Add\<close>: \<open>None\<close> when one of its assertions fails.\<close>

definition BlockBuilder_Add :: "BlockBuilder \<Rightarrow> bytes \<Rightarrow> bytes \<Rightarrow> BlockBuilder option" where
  "BlockBuilder_Add b key val =
     (if \<not> BlockBuilder_Add_asserts b key then None
      else
        let restart = \<not> (bb_counter b < bb_restart_interval b);
            shared = (if restart then 0 else shared_prefix (bb_last_key b) key);
            restarts' = (if restart then bb_restarts b @ [of_nat (length (bb_buffer b))]
                         else bb_restarts b);
            counter' = (if restart then 0 else bb_counter b);
            non_shared = length key - shared
        in Some (b\<lparr>bb_buffer := bb_buffer b @ PutVarint32 (of_nat shared)
                                   @ PutVarint32 (of_nat non_shared)
                                   @ PutVarint32 (of_nat (length val)) @ drop shared key @ val,
                    bb_restarts := restarts',
                    bb_last_key := key,
                    bb_counter := counter' + 1\<rparr>))"

text \<open>\<^verbatim>\<open>BlockBuilder::Finish\<close> appends the restart array to the buffer and returns the
  buffer.\<close>

definition BlockBuilder_Finish :: "BlockBuilder \<Rightarrow> bytes \<times> BlockBuilder" where
  "BlockBuilder_Finish b =
     (let buf = bb_buffer b @ concat (map EncodeFixed32 (bb_restarts b))
                  @ EncodeFixed32 (of_nat (length (bb_restarts b)))
      in (buf, b\<lparr>bb_buffer := buf, bb_finished := True\<rparr>))"

definition BlockBuilder_CurrentSizeEstimate :: "BlockBuilder \<Rightarrow> nat" where
  "BlockBuilder_CurrentSizeEstimate b = length (bb_buffer b) + length (bb_restarts b) * 4 + 4"

definition BlockBuilder_Empty :: "BlockBuilder \<Rightarrow> bool" where
  "BlockBuilder_Empty b = (bb_buffer b = [])"

datatype BlockType = kData | kIndex

fun BlockType_code :: "BlockType \<Rightarrow> 8 word" where
  "BlockType_code kData = 0x00"
| "BlockType_code kIndex = 0x01"

definition AddTrailer :: "bytes \<Rightarrow> BlockType \<Rightarrow> bytes" where
  "AddTrailer block_contents type =
     (let result = block_contents @ [BlockType_code type]
      in result @ EncodeFixed32 (CRC32_Compute result))"

text \<open>\<^verbatim>\<open>BlockTrailer::VerifyTrailer\<close>: the type byte is the expected one and the stored
  checksum is the checksum of the contents and the type byte.\<close>

definition VerifyTrailer :: "bytes \<Rightarrow> BlockType \<Rightarrow> bool" where
  "VerifyTrailer block_with_trailer expected_type =
     (if length block_with_trailer < kBlockTrailerSize then False
      else
        let contents_size = length block_with_trailer - kBlockTrailerSize;
            trailer = drop contents_size block_with_trailer
        in if trailer ! 0 \<noteq> BlockType_code expected_type then False
           else DecodeFixed32 (drop 1 trailer)
                  = CRC32_Compute (take (contents_size + 1) block_with_trailer))"

text \<open>\<^verbatim>\<open>IndexBlockBuilder\<close>: a block builder with restart interval 1 and an entry
  count.\<close>

record IndexBlockBuilder =
  ib_block_builder :: BlockBuilder
  ib_entry_count :: nat

definition IndexBlockBuilder_new :: "IndexBlockBuilder option" where
  "IndexBlockBuilder_new =
     (case BlockBuilder_new 1 of
        None \<Rightarrow> None
      | Some bb \<Rightarrow> Some \<lparr>ib_block_builder = bb, ib_entry_count = 0\<rparr>)"

definition IndexBlockBuilder_AddEntry ::
  "IndexBlockBuilder \<Rightarrow> bytes \<Rightarrow> BlockHandle \<Rightarrow> IndexBlockBuilder option" where
  "IndexBlockBuilder_AddEntry ib last_key handle =
     (case BlockBuilder_Add (ib_block_builder ib) last_key (BlockHandle_Encode handle) of
        None \<Rightarrow> None
      | Some bb \<Rightarrow> Some (ib\<lparr>ib_block_builder := bb, ib_entry_count := ib_entry_count ib + 1\<rparr>))"

definition IndexBlockBuilder_Finish :: "IndexBlockBuilder \<Rightarrow> bytes \<times> IndexBlockBuilder" where
  "IndexBlockBuilder_Finish ib =
     (let (buf, bb) = BlockBuilder_Finish (ib_block_builder ib) in (buf, ib\<lparr>ib_block_builder := bb\<rparr>))"

section \<open>Bloom filter (util/bloom_filter.h)\<close>

text \<open>\<^verbatim>\<open>MurmurHash::Hash64\<close>. The source reads the 8-byte blocks through a
  \<^verbatim>\<open>uint64_t\<close> pointer; the model reads them little-endian (the byte order of the
  hosts the spec names). \<open>len\<close> is \<^verbatim>\<open>size_t\<close>, 64 bits.\<close>

definition murmur_m :: "64 word" where
  "murmur_m = 0xc6a4a7935bd1e995"

function Hash64_blocks :: "64 word \<Rightarrow> bytes \<Rightarrow> 64 word \<times> bytes" where
  "Hash64_blocks h data =
     (if 8 \<le> length data then
        (let k = DecodeFixed64 (take 8 data);
             k = k * murmur_m;
             k = k XOR drop_bit 47 k;
             k = k * murmur_m;
             h = h XOR k;
             h = h * murmur_m
         in Hash64_blocks h (drop 8 data))
      else (h, data))"
  by pat_completeness auto
termination
  by (relation "measure (\<lambda>(h, data). length data)") auto

definition Hash64_tail :: "bytes \<Rightarrow> 64 word" where
  "Hash64_tail tail = fold (\<lambda>i k. k XOR push_bit (8 * i) (ucast (tail ! i))) (rev [0..<length tail]) 0"

definition Hash64 :: "bytes \<Rightarrow> 64 word \<Rightarrow> 64 word" where
  "Hash64 data seed =
     (let h = seed XOR (of_nat (length data) * murmur_m);
          (h, tail) = Hash64_blocks h data;
          h = (if tail = [] then h else h XOR (Hash64_tail tail * murmur_m));
          h = h XOR drop_bit 47 h;
          h = h * murmur_m;
          h = h XOR drop_bit 47 h
      in h)"

definition Hash128 :: "bytes \<Rightarrow> 64 word \<times> 64 word" where
  "Hash128 data = (let h1 = Hash64 data 0; h2 = Hash64 data h1 in (h1, h2))"

record BloomFilterBuilder =
  policy_bits_per_key :: int
  bf_hashes :: "(64 word \<times> 64 word) list"
  bf_num_keys :: nat

definition BloomFilterBuilder_new :: "int \<Rightarrow> BloomFilterBuilder" where
  "BloomFilterBuilder_new bits_per_key =
     \<lparr>policy_bits_per_key = bits_per_key, bf_hashes = [], bf_num_keys = 0\<rparr>"

definition AddKey :: "BloomFilterBuilder \<Rightarrow> bytes \<Rightarrow> BloomFilterBuilder" where
  "AddKey b key = b\<lparr>bf_hashes := bf_hashes b @ [Hash128 key], bf_num_keys := bf_num_keys b + 1\<rparr>"

text \<open>The probe position \<^verbatim>\<open>(h1 + i * h2) % num_bits\<close> in 64-bit unsigned arithmetic.\<close>

definition bit_pos :: "64 word \<Rightarrow> 64 word \<times> 64 word \<Rightarrow> nat \<Rightarrow> 64 word" where
  "bit_pos num_bits h i = (fst h + of_nat i * snd h) mod num_bits"

text \<open>\<^verbatim>\<open>data[bit_pos / 8] |= (1 << (bit_pos % 8))\<close>.\<close>

definition set_bit_at :: "64 word \<Rightarrow> bytes \<Rightarrow> bytes" where
  "set_bit_at pos data =
     data[unat (pos div 8) := data ! unat (pos div 8) OR push_bit (unat (pos mod 8)) 1]"

definition test_bit_at :: "64 word \<Rightarrow> bytes \<Rightarrow> bool" where
  "test_bit_at pos data = (data ! unat (pos div 8) AND push_bit (unat (pos mod 8)) 1 \<noteq> 0)"

definition CreateFilter :: "BloomFilterBuilder \<Rightarrow> 64 word \<Rightarrow> bytes" where
  "CreateFilter b num_bits =
     (let num_bytes = unat (num_bits div 8);
          num_hashes = nat (OptimalNumHashes (policy_bits_per_key b));
          result = replicate (num_bytes + 1) 0;
          result = fold (\<lambda>h data. fold (\<lambda>i. set_bit_at (bit_pos num_bits h i)) [0..<num_hashes] data)
                     (bf_hashes b) result
      in result[num_bytes := of_nat num_hashes])"

text \<open>\<^verbatim>\<open>BloomFilterBuilder::Finish\<close>: \<^verbatim>\<open>size_t bits = num_keys_ * policy_.bits_per_key\<close>
  converts the \<^verbatim>\<open>int\<close> to \<^verbatim>\<open>size_t\<close> and multiplies modulo \<open>2^64\<close>.\<close>

definition BloomFilterBuilder_Finish :: "BloomFilterBuilder \<Rightarrow> bytes" where
  "BloomFilterBuilder_Finish b =
     (if bf_num_keys b = 0 then CreateFilter b 0
      else
        let bits = (of_nat (bf_num_keys b) :: 64 word) * of_int (policy_bits_per_key b);
            bits = ((bits + 7) div 8) * 8;
            bits = (if bits < 64 then 64 else bits)
        in CreateFilter b bits)"

record BloomFilterReader =
  br_data :: bytes
  br_num_bits :: "64 word"
  br_num_hashes :: nat

text \<open>\<^verbatim>\<open>BloomFilterReader::Init\<close>: \<open>None\<close> is \<^verbatim>\<open>false\<close>.\<close>

definition BloomFilterReader_Init :: "bytes \<Rightarrow> BloomFilterReader option" where
  "BloomFilterReader_Init filter_data =
     (if length filter_data < 1 then None
      else
        let nh = unat (filter_data ! (length filter_data - 1))
        in if nh = 0 \<or> nh > 30 then None
           else Some \<lparr>br_data = filter_data,
                      br_num_bits = of_nat (length filter_data - 1) * 8,
                      br_num_hashes = nh\<rparr>)"

definition MayContain :: "BloomFilterReader \<Rightarrow> bytes \<Rightarrow> bool" where
  "MayContain r key =
     (if br_num_bits r = 0 then True
      else
        let h = Hash128 key
        in list_all (\<lambda>i. test_bit_at (bit_pos (br_num_bits r) h i) (br_data r))
             [0..<br_num_hashes r])"


section \<open>Status (util/types.h)\<close>

datatype StatusCode =
  kOk | kNotFound | kCorruption | kNotSupported | kInvalidArgument | kIOError | kMemoryLimit

datatype Status = Status StatusCode string

fun code :: "Status \<Rightarrow> StatusCode" where
  "code (Status c msg) = c"

definition Status_OK :: Status where
  "Status_OK = Status kOk []"

definition Status_Corruption :: "string \<Rightarrow> Status" where
  "Status_Corruption msg = Status kCorruption msg"

definition Status_IOError :: "string \<Rightarrow> Status" where
  "Status_IOError msg = Status kIOError msg"

definition ok :: "Status \<Rightarrow> bool" where
  "ok s = (code s = kOk)"

definition IsCorruption :: "Status \<Rightarrow> bool" where
  "IsCorruption s = (code s = kCorruption)"

section \<open>System calls\<close>

text \<open>
  What the operating system answers is an input of the model. \<^verbatim>\<open>write(fd, buf, n)\<close>
  either appends the first \<open>k \<le> n\<close> bytes of the buffer and returns \<open>k\<close>, or returns
  \<open>-1\<close> with an \<^verbatim>\<open>errno\<close>.
\<close>

datatype errno = EINTR | EIO | ENOSPC

datatype write_result = Written nat | WriteFailed errno

fun sys_write :: "write_result \<Rightarrow> bytes \<Rightarrow> bytes \<Rightarrow> int \<times> bytes" where
  "sys_write (Written k) file buf = (int (min k (length buf)), file @ take k buf)"
| "sys_write (WriteFailed e) file buf = (-1, file)"

section \<open>WAL writer (wal/wal_writer.h)\<close>

text \<open>
  Modelled from the spec: \<^verbatim>\<open>kHeaderSize\<close> and \<^verbatim>\<open>RecordType::kFull\<close> are declared in
  \<^verbatim>\<open>wal/wal_format.h\<close>, which is not among the sources. The spec gives a 7-byte
  header (4-byte CRC, 2-byte length, 1-byte type) and record type \<^verbatim>\<open>Full\<close> = 1.
\<close>

definition kHeaderSize :: nat where
  "kHeaderSize = 7"

definition RecordType_kFull :: "8 word" where
  "RecordType_kFull = 1"

datatype WALEntryType = kPut | kDelete | kOtherEntryType

record WALEntry =
  we_type :: WALEntryType
  we_sequence :: "64 word"
  we_key :: bytes
  we_value :: bytes

datatype SyncPolicy = kSyncPerWrite | kSyncBatched | kSyncPeriodic | kNoSync

text \<open>The writer with its options; \<open>ww_file\<close> is the content of the file behind
  \<^verbatim>\<open>fd_\<close> (opened with \<^verbatim>\<open>O_APPEND\<close>) and \<open>ww_fsyncs\<close> counts the \<^verbatim>\<open>fsync\<close> calls
  issued, so that a theorem can say that none was made.\<close>

record WALWriter =
  ww_sync_policy :: SyncPolicy
  ww_sync_batch_size :: nat
  ww_max_file_size :: nat
  ww_fd :: int
  ww_file_size :: nat
  ww_bytes_since_sync :: nat
  ww_closed :: bool
  ww_sync_requested :: bool
  ww_file :: bytes
  ww_fsyncs :: nat

text \<open>The record that \<^verbatim>\<open>AppendRecord\<close> builds: \<^verbatim>\<open>uint16_t len =
  static_cast<uint16_t>(payload.size())\<close>, the CRC over type and payload, then folded
  over the two length bytes.\<close>

definition WAL_record :: "bytes \<Rightarrow> bytes" where
  "WAL_record payload =
     (let len = (of_nat (length payload) :: 16 word);
          len_bytes = [ucast (len AND 0xff), ucast (drop_bit 8 len AND 0xff)];
          crc = CRC32_Compute (RecordType_kFull # payload);
          crc = CRC32_Update (crc XOR 0xFFFFFFFF) len_bytes XOR 0xFFFFFFFF
      in [ucast (crc AND 0xff), ucast (drop_bit 8 crc AND 0xff),
          ucast (drop_bit 16 crc AND 0xff), ucast (drop_bit 24 crc AND 0xff)]
         @ len_bytes @ [RecordType_kFull] @ payload)"

definition SyncLocked :: "bool \<Rightarrow> WALWriter \<Rightarrow> Status \<times> WALWriter" where
  "SyncLocked fsync_ok w =
     (if 0 \<le> ww_fd w \<and> 0 < ww_bytes_since_sync w then
        (if \<not> fsync_ok then (Status_IOError ''Failed to fsync WAL'', w\<lparr>ww_fsyncs := ww_fsyncs w + 1\<rparr>)
         else (Status_OK, w\<lparr>ww_fsyncs := ww_fsyncs w + 1, ww_bytes_since_sync := 0\<rparr>))
      else (Status_OK, w))"

definition HandleSync :: "bool \<Rightarrow> WALWriter \<Rightarrow> Status \<times> WALWriter" where
  "HandleSync fsync_ok w =
     (case ww_sync_policy w of
        kSyncPerWrite \<Rightarrow> SyncLocked fsync_ok w
      | kSyncBatched \<Rightarrow>
          (if ww_sync_batch_size w \<le> ww_bytes_since_sync w then SyncLocked fsync_ok w
           else (Status_OK, w))
      | kSyncPeriodic \<Rightarrow> (Status_OK, w\<lparr>ww_sync_requested := True\<rparr>)
      | kNoSync \<Rightarrow> (Status_OK, w))"

text \<open>\<^verbatim>\<open>WALWriter::AppendRecord\<close>: one call of \<^verbatim>\<open>write\<close>, whose answer is \<open>wres\<close>.\<close>

definition AppendRecord :: "write_result \<Rightarrow> bool \<Rightarrow> WALWriter \<Rightarrow> bytes \<Rightarrow> Status \<times> WALWriter" where
  "AppendRecord wres fsync_ok w payload =
     (if ww_fd w < 0 then (Status_IOError ''WAL not open'', w)
      else
        let record = WAL_record payload;
            (written, file') = sys_write wres (ww_file w) record;
            w = w\<lparr>ww_file := file'\<rparr>
        in if written \<noteq> int (length record)
           then (Status_IOError ''Failed to write WAL record'', w)
           else HandleSync fsync_ok
                  (w\<lparr>ww_file_size := ww_file_size w + length record,
                     ww_bytes_since_sync := ww_bytes_since_sync w + length record\<rparr>))"

text \<open>\<^verbatim>\<open>WALWriter::Append\<close>; \<^verbatim>\<open>EncodeWALEntry\<close> (wal/wal_format.h) is the parameter
  \<open>encode\<close>.\<close>

definition WALWriter_Append ::
  "(WALEntry \<Rightarrow> bytes) \<Rightarrow> write_result \<Rightarrow> bool \<Rightarrow> WALWriter \<Rightarrow> WALEntry \<Rightarrow> Status \<times> WALWriter" where
  "WALWriter_Append encode wres fsync_ok w entry = AppendRecord wres fsync_ok w (encode entry)"

section \<open>WAL reader (wal/wal_reader.h)\<close>

record ReadResult =
  rr_status :: Status
  rr_eof :: bool
  rr_payload :: bytes

definition ReadResult_OK :: "bytes \<Rightarrow> ReadResult" where
  "ReadResult_OK d = \<lparr>rr_status = Status_OK, rr_eof = False, rr_payload = d\<rparr>"

definition ReadResult_Eof :: ReadResult where
  "ReadResult_Eof = \<lparr>rr_status = Status_OK, rr_eof = True, rr_payload = []\<rparr>"

definition ReadResult_Error :: "Status \<Rightarrow> ReadResult" where
  "ReadResult_Error s = \<lparr>rr_status = s, rr_eof = False, rr_payload = []\<rparr>"

text \<open>The reader: \<open>wr_data = None\<close> is \<^verbatim>\<open>data_ == nullptr\<close>.\<close>

record WALReader =
  wr_fd :: int
  wr_data :: "bytes option"
  wr_size :: nat
  wr_pos :: nat

text \<open>What \<^verbatim>\<open>open\<close>, \<^verbatim>\<open>fstat\<close> and \<^verbatim>\<open>mmap\<close> answer for a segment file.\<close>

datatype segment_file = OpenFails | StatFails | MmapFails | Readable bytes

definition WALReader_closed :: WALReader where
  "WALReader_closed = \<lparr>wr_fd = -1, wr_data = None, wr_size = 0, wr_pos = 0\<rparr>"

text \<open>\<^verbatim>\<open>WALReader::Open\<close> on a reader as constructed. The member \<^verbatim>\<open>path_\<close> is read by
  \<^verbatim>\<open>Open\<close> only, for the message of a failed \<^verbatim>\<open>open\<close>: it is the argument \<open>path\<close>.\<close>

fun WALReader_Open :: "string \<Rightarrow> segment_file \<Rightarrow> Status \<times> WALReader" where
  "WALReader_Open path OpenFails =
     (Status_IOError (''Failed to open WAL for reading: '' @ path), WALReader_closed)"
| "WALReader_Open path StatFails = (Status_IOError ''Failed to stat WAL file'', WALReader_closed)"
| "WALReader_Open path MmapFails = (Status_IOError ''Failed to mmap WAL file'', WALReader_closed)"
| "WALReader_Open path (Readable contents) =
     (Status_OK,
      \<lparr>wr_fd = 3,
       wr_data = (if length contents = 0 then None else Some contents),
       wr_size = length contents, wr_pos = 0\<rparr>)"

definition ReadRecord :: "WALReader \<Rightarrow> ReadResult \<times> WALReader" where
  "ReadRecord r =
     (case wr_data r of
        None \<Rightarrow> (ReadResult_Eof, r)
      | Some data \<Rightarrow>
          if wr_size r \<le> wr_pos r then (ReadResult_Eof, r)
          else if wr_size r < wr_pos r + kHeaderSize
          then (ReadResult_Error (Status_Corruption ''Truncated record header''), r)
          else
            let header = drop (wr_pos r) data;
                stored_crc = DecodeFixed32 header;
                len = unat ((ucast (header ! 4) OR push_bit 8 (ucast (header ! 5))) :: 16 word);
                type = header ! 6
            in if wr_size r < wr_pos r + kHeaderSize + len
               then (ReadResult_Error (Status_Corruption ''Truncated record payload''), r)
               else
                 let computed_crc = CRC32_Compute (take (1 + len) (drop 6 header));
                     computed_crc =
                       CRC32_Update (computed_crc XOR 0xFFFFFFFF) (take 2 (drop 4 header))
                         XOR 0xFFFFFFFF
                 in if stored_crc \<noteq> computed_crc
                    then (ReadResult_Error (Status_Corruption ''CRC mismatch in WAL record''), r)
                    else if type \<noteq> RecordType_kFull
                    then (ReadResult_Error (Status_Corruption ''Unsupported record type''), r)
                    else (ReadResult_OK (take len (drop kHeaderSize header)),
                          r\<lparr>wr_pos := wr_pos r + kHeaderSize + len\<rparr>))"

text \<open>\<^verbatim>\<open>WALReader::ReadEntry\<close>: \<open>Inr entry\<close> is \<^verbatim>\<open>true\<close> with the entry read, \<open>Inl
  status\<close> is \<^verbatim>\<open>false\<close> with the status. \<^verbatim>\<open>DecodeWALEntry\<close> (wal/wal_format.h) is the
  parameter \<open>decode\<close>.\<close>

definition ReadEntry :: "(bytes \<Rightarrow> WALEntry option) \<Rightarrow> WALReader \<Rightarrow> (Status + WALEntry) \<times> WALReader" where
  "ReadEntry decode r =
     (let (result, r') = ReadRecord r
      in if rr_eof result then (Inl Status_OK, r')
         else if \<not> ok (rr_status result) then (Inl (rr_status result), r')
         else (case decode (rr_payload result) of
                 None \<Rightarrow> (Inl (Status_Corruption ''Failed to decode WAL entry''), r')
               | Some entry \<Rightarrow> (Inr entry, r')))"

section \<open>Auxiliary notions for the WAL record format\<close>

text \<open>The two length bytes of a record and the checksum expression that writer and
  reader both compute: names for the proofs, not functions of the source.\<close>

definition WAL_len_bytes :: "bytes \<Rightarrow> bytes" where
  "WAL_len_bytes payload =
     (let len = (of_nat (length payload) :: 16 word)
      in [ucast (len AND 0xff), ucast (drop_bit 8 len AND 0xff)])"

definition WAL_crc :: "bytes \<Rightarrow> bytes \<Rightarrow> 32 word" where
  "WAL_crc body len_bytes =
     CRC32_Update (CRC32_Compute body XOR 0xFFFFFFFF) len_bytes XOR 0xFFFFFFFF"

section \<open>Skip list (memtable/skiplist.h)\<close>

text \<open>
  The nodes of the list are kept in the order of the level-0 chain, each with its key
  and its height; the chain of level \<open>i\<close> is the subsequence of the nodes whose height
  exceeds \<open>i\<close>. A node pointer is a position: \<open>0\<close> is \<^verbatim>\<open>head_\<close>, \<open>i + 1\<close> is the
  \<open>i\<close>-th node, and \<^verbatim>\<open>nullptr\<close> is \<open>None\<close>. \<open>sl_rng\<close> is the sequence of numbers that
  \<^verbatim>\<open>rng_()\<close> (a \<^verbatim>\<open>std::mt19937\<close> seeded from \<^verbatim>\<open>std::random_device\<close>) will return
  and \<open>sl_rng_pos\<close> counts the calls made, so the random heights are an input of the
  model.
\<close>

definition kMaxHeight :: nat where
  "kMaxHeight = 12"

definition kBranching :: nat where
  "kBranching = 4"

record 'k SkipList =
  sl_nodes :: "('k \<times> nat) list"
  sl_max_height :: nat
  sl_rng :: "nat \<Rightarrow> nat"
  sl_rng_pos :: nat

definition SkipList_new :: "(nat \<Rightarrow> nat) \<Rightarrow> 'k SkipList" where
  "SkipList_new rng = \<lparr>sl_nodes = [], sl_max_height = 1, sl_rng = rng, sl_rng_pos = 0\<rparr>"

text \<open>\<^verbatim>\<open>x->Next(level)\<close>: the first node after position \<open>x\<close> that is linked at
  \<open>level\<close>.\<close>

function Next :: "('k \<times> nat) list \<Rightarrow> nat \<Rightarrow> nat \<Rightarrow> nat option" where
  "Next xs x level =
     (if x < length xs
      then (if level < snd (xs ! x) then Some (x + 1) else Next xs (x + 1) level)
      else None)"
  by pat_completeness auto
termination
  by (relation "measure (\<lambda>(xs, x, level). length xs - x)") auto

declare Next.simps [simp del]

lemma Next_bounds: "Next xs x level = Some nx \<Longrightarrow> x < nx \<and> nx \<le> length xs"
proof (induction xs x level rule: Next.induct)
  case (1 xs x level)
  show ?case
  proof (cases "x < length xs")
    case True
    note lt = this
    show ?thesis
    proof (cases "level < snd (xs ! x)")
      case True
      then have "nx = x + 1" using "1.prems" lt by (subst (asm) Next.simps) simp
      then show ?thesis using lt by simp
    next
      case False
      then have "Next xs (x + 1) level = Some nx" using "1.prems" lt by (subst (asm) Next.simps) simp
      then have "x + 1 < nx \<and> nx \<le> length xs" using "1.IH" lt False by simp
      then show ?thesis by simp
    qed
  next
    case False
    then show ?thesis using "1.prems" by (subst (asm) Next.simps) simp
  qed
qed

text \<open>\<^verbatim>\<open>RandomHeight\<close>: \<^verbatim>\<open>while (height < kMaxHeight && (rng_() % kBranching) == 0)
  height++\<close>; the generator is called only while the height is below the maximum.\<close>

function RandomHeight_loop :: "(nat \<Rightarrow> nat) \<Rightarrow> nat \<Rightarrow> nat \<Rightarrow> nat \<times> nat" where
  "RandomHeight_loop rng pos height =
     (if height < kMaxHeight
      then (if rng pos mod kBranching = 0 then RandomHeight_loop rng (pos + 1) (height + 1)
            else (height, pos + 1))
      else (height, pos))"
  by pat_completeness auto
termination
  by (relation "measure (\<lambda>(rng, pos, height). kMaxHeight - height)") auto

declare RandomHeight_loop.simps [simp del]

definition RandomHeight :: "'k SkipList \<Rightarrow> nat \<times> 'k SkipList" where
  "RandomHeight l =
     (let (height, pos) = RandomHeight_loop (sl_rng l) (sl_rng_pos l) 1
      in (height, l\<lparr>sl_rng_pos := pos\<rparr>))"

text \<open>\<^verbatim>\<open>FindGreaterOrEqual(key, prev)\<close>: the result is the node found and the array
  \<open>prev\<close>. \<^verbatim>\<open>KeyIsAfterNode(key, n)\<close> is \<^verbatim>\<open>n != nullptr && compare_(n->key, key) < 0\<close>.\<close>

function FindGreaterOrEqual_loop ::
  "('k \<Rightarrow> 'k \<Rightarrow> int) \<Rightarrow> ('k \<times> nat) list \<Rightarrow> 'k \<Rightarrow> nat \<Rightarrow> nat \<Rightarrow> nat list
     \<Rightarrow> nat option \<times> nat list" where
  "FindGreaterOrEqual_loop cmp xs key x level prev =
     (let next = Next xs x level
      in if (case next of None \<Rightarrow> False | Some nx \<Rightarrow> cmp (fst (xs ! (nx - 1))) key < 0)
         then FindGreaterOrEqual_loop cmp xs key (the next) level prev
         else
           let prev = prev[level := x]
           in if level = 0 then (next, prev)
              else FindGreaterOrEqual_loop cmp xs key x (level - 1) prev)"
  by pat_completeness auto
termination
proof (relation "measure (\<lambda>(cmp, xs, key, x, level, prev). (length xs - x) + level)")
  fix cmp :: "'k \<Rightarrow> 'k \<Rightarrow> int" and xs :: "('k \<times> nat) list" and k :: 'k
    and x level :: nat and prev :: "nat list" and nxt :: "nat option"
  assume n: "nxt = Next xs x level"
    and c: "case nxt of None \<Rightarrow> False | Some nx \<Rightarrow> cmp (fst (xs ! (nx - 1))) k < 0"
  from c obtain nx where nn: "nxt = Some nx" by (cases nxt) auto
  have nx: "Next xs x level = Some nx" using n nn by simp
  then have "x < nx \<and> nx \<le> length xs" by (rule Next_bounds)
  then show "((cmp, xs, k, the nxt, level, prev), (cmp, xs, k, x, level, prev))
          \<in> measure (\<lambda>(cmp, xs, key, x, level, prev). (length xs - x) + level)"
    using nn by auto
qed auto

declare FindGreaterOrEqual_loop.simps [simp del]

definition FindGreaterOrEqual ::
  "('k \<Rightarrow> 'k \<Rightarrow> int) \<Rightarrow> 'k SkipList \<Rightarrow> 'k \<Rightarrow> nat option \<times> nat list" where
  "FindGreaterOrEqual cmp l key =
     FindGreaterOrEqual_loop cmp (sl_nodes l) key 0 (sl_max_height l - 1) (replicate kMaxHeight 0)"

text \<open>
  \<^verbatim>\<open>Insert\<close>. After the search comes \<^verbatim>\<open>assert(x == nullptr || !Equal(key, x->key))\<close>,
  where \<^verbatim>\<open>Equal(a, b)\<close> is \<^verbatim>\<open>compare_(a, b) == 0\<close>; a failed assertion aborts the
  program, which is the result \<open>None\<close>. Above the old maximal height \<open>prev[i]\<close> is set to
  the head. Linking the node after \<open>prev[i]\<close> on every level \<open>i < height\<close> puts it, in the
  level-0 order, right after \<open>prev[0]\<close>; on the higher levels \<open>prev[i]\<close> is the last node
  before that place which is linked at level \<open>i\<close>, so the new chains are again the
  subsequences of the level-0 chain.
\<close>

definition SkipList_Insert :: "('k \<Rightarrow> 'k \<Rightarrow> int) \<Rightarrow> 'k SkipList \<Rightarrow> 'k \<Rightarrow> 'k SkipList option" where
  "SkipList_Insert cmp l key =
     (let (x, prev) = FindGreaterOrEqual cmp l key
      in if \<not> (case x of None \<Rightarrow> True | Some n \<Rightarrow> cmp key (fst (sl_nodes l ! (n - 1))) \<noteq> 0)
         then None
         else
           let (height, l) = RandomHeight l;
               prev = (if sl_max_height l < height
                       then fold (\<lambda>i p. p[i := 0]) [sl_max_height l..<height] prev else prev);
               l = (if sl_max_height l < height then l\<lparr>sl_max_height := height\<rparr> else l)
           in Some (l\<lparr>sl_nodes := take (prev ! 0) (sl_nodes l) @ (key, height)
                                       # drop (prev ! 0) (sl_nodes l)\<rparr>))"

section \<open>Memtable (db/memtable.h, util/types.h)\<close>

record InternalKey =
  user_key :: bytes
  sequence :: "64 word"
  vtype :: ValueType

record MemTableEntry =
  internal_key :: InternalKey
  entry_value :: bytes

text \<open>\<^verbatim>\<open>std::string::compare\<close> returns a negative number, zero or a positive number; the
  callers use its sign only, which is what the model returns.\<close>

definition string_compare :: "bytes \<Rightarrow> bytes \<Rightarrow> int" where
  "string_compare a b = (if a < b then -1 else if a = b then 0 else 1)"

definition MemTableKeyComparator :: "MemTableEntry \<Rightarrow> MemTableEntry \<Rightarrow> int" where
  "MemTableKeyComparator a b =
     (let r = string_compare (user_key (internal_key a)) (user_key (internal_key b))
      in if r \<noteq> 0 then r
         else if sequence (internal_key b) < sequence (internal_key a) then -1
         else if sequence (internal_key a) < sequence (internal_key b) then 1
         else 0)"

record LookupResult =
  found :: bool
  is_deleted :: bool
  result_value :: bytes

definition LookupResult_NotFound :: LookupResult where
  "LookupResult_NotFound = \<lparr>found = False, is_deleted = False, result_value = []\<rparr>"

definition LookupResult_Found :: "bytes \<Rightarrow> LookupResult" where
  "LookupResult_Found val = \<lparr>found = True, is_deleted = False, result_value = val\<rparr>"

definition LookupResult_Deleted :: LookupResult where
  "LookupResult_Deleted = \<lparr>found = True, is_deleted = True, result_value = []\<rparr>"

definition kMaxSequenceNumber :: "64 word" where
  "kMaxSequenceNumber = 0xFFFFFFFFFFFFFFFF"

text \<open>\<^verbatim>\<open>sizeof(MemTableEntry)\<close> depends on the platform: 80 with 32-byte
  \<^verbatim>\<open>std::string\<close>s (two strings, the sequence and the padded type tag).\<close>

definition sizeof_MemTableEntry :: nat where
  "sizeof_MemTableEntry = 80"

record MemTable =
  mt_max_size :: nat
  mt_table :: "MemTableEntry SkipList"
  mt_refs :: int
  mt_approximate_memory_usage :: nat
  mt_entry_count :: nat
  mt_min_sequence :: "64 word"
  mt_max_sequence :: "64 word"

definition MemTable_new :: "nat \<Rightarrow> (nat \<Rightarrow> nat) \<Rightarrow> MemTable" where
  "MemTable_new max_size rng =
     \<lparr>mt_max_size = max_size, mt_table = SkipList_new rng, mt_refs = 0,
      mt_approximate_memory_usage = 0, mt_entry_count = 0,
      mt_min_sequence = kMaxSequenceNumber, mt_max_sequence = 0\<rparr>"

text \<open>\<^verbatim>\<open>MemTable::Add\<close>; the two compare-and-swap loops lower the minimum and raise the
  maximum. \<open>None\<close>: the assertion of \<^verbatim>\<open>Insert\<close> has failed.\<close>

definition MemTable_Add ::
  "MemTable \<Rightarrow> 64 word \<Rightarrow> ValueType \<Rightarrow> bytes \<Rightarrow> bytes \<Rightarrow> MemTable option" where
  "MemTable_Add m seq type key val =
     (let entry = \<lparr>internal_key = \<lparr>user_key = key, sequence = seq, vtype = type\<rparr>,
                   entry_value = val\<rparr>
      in case SkipList_Insert MemTableKeyComparator (mt_table m) entry of
           None \<Rightarrow> None
         | Some table \<Rightarrow>
             let entry_size = length key + length val + 8 + 1 + sizeof_MemTableEntry
             in Some (m\<lparr>mt_table := table,
                        mt_approximate_memory_usage := mt_approximate_memory_usage m + entry_size,
                        mt_entry_count := mt_entry_count m + 1,
                        mt_min_sequence :=
                          (if seq < mt_min_sequence m then seq else mt_min_sequence m),
                        mt_max_sequence :=
                          (if mt_max_sequence m < seq then seq else mt_max_sequence m)\<rparr>))"

definition MemTable_Put :: "MemTable \<Rightarrow> 64 word \<Rightarrow> bytes \<Rightarrow> bytes \<Rightarrow> MemTable option" where
  "MemTable_Put m seq key val = MemTable_Add m seq kValue key val"

definition MemTable_Delete :: "MemTable \<Rightarrow> 64 word \<Rightarrow> bytes \<Rightarrow> MemTable option" where
  "MemTable_Delete m seq key = MemTable_Add m seq kDeletion key []"

text \<open>\<^verbatim>\<open>MemTable::Get\<close>: seek to the probe \<^verbatim>\<open>(key, snapshot_seq, kValue)\<close>.\<close>

definition MemTable_Get :: "MemTable \<Rightarrow> bytes \<Rightarrow> 64 word \<Rightarrow> LookupResult" where
  "MemTable_Get m key snapshot_seq =
     (let lookup_key = \<lparr>internal_key = \<lparr>user_key = key, sequence = snapshot_seq, vtype = kValue\<rparr>,
                        entry_value = []\<rparr>
      in case fst (FindGreaterOrEqual MemTableKeyComparator (mt_table m) lookup_key) of
           None \<Rightarrow> LookupResult_NotFound
         | Some x \<Rightarrow>
             let entry = fst (sl_nodes (mt_table m) ! (x - 1))
             in if user_key (internal_key entry) = key
                then (if vtype (internal_key entry) = kDeletion then LookupResult_Deleted
                      else LookupResult_Found (entry_value entry))
                else LookupResult_NotFound)"

definition ShouldFlush :: "MemTable \<Rightarrow> bool" where
  "ShouldFlush m = (mt_max_size m \<le> mt_approximate_memory_usage m)"

text \<open>The operations of the claims about a single memtable: a put or a delete with
  its sequence number.\<close>

datatype MemTableOp = Put "64 word" bytes bytes | Delete "64 word" bytes

fun op_sequence :: "MemTableOp \<Rightarrow> 64 word" where
  "op_sequence (Put seq key val) = seq"
| "op_sequence (Delete seq key) = seq"

fun op_entry :: "MemTableOp \<Rightarrow> MemTableEntry" where
  "op_entry (Put seq key val) =
     \<lparr>internal_key = \<lparr>user_key = key, sequence = seq, vtype = kValue\<rparr>, entry_value = val\<rparr>"
| "op_entry (Delete seq key) =
     \<lparr>internal_key = \<lparr>user_key = key, sequence = seq, vtype = kDeletion\<rparr>, entry_value = []\<rparr>"

fun MemTable_apply :: "MemTable \<Rightarrow> MemTableOp \<Rightarrow> MemTable option" where
  "MemTable_apply m (Put seq key val) = MemTable_Put m seq key val"
| "MemTable_apply m (Delete seq key) = MemTable_Delete m seq key"

text \<open>A list of calls, one after the other; \<open>None\<close> as soon as one of them aborts.\<close>

fun MemTable_apply_all :: "MemTable \<Rightarrow> MemTableOp list \<Rightarrow> MemTable option" where
  "MemTable_apply_all m [] = Some m"
| "MemTable_apply_all m (op # ops) =
     (case MemTable_apply m op of
        None \<Rightarrow> None
      | Some m' \<Rightarrow> MemTable_apply_all m' ops)"

text \<open>What the claims say a lookup returns: among the entries for the key with
  sequence at most the snapshot, the one with the largest sequence.\<close>

fun newest_visible :: "MemTableEntry list \<Rightarrow> bytes \<Rightarrow> 64 word \<Rightarrow> MemTableEntry option" where
  "newest_visible [] k s = None"
| "newest_visible (e # es) k s =
     (if user_key (internal_key e) = k \<and> sequence (internal_key e) \<le> s
      then (case newest_visible es k s of
              None \<Rightarrow> Some e
            | Some e' \<Rightarrow> if sequence (internal_key e') < sequence (internal_key e) then Some e
                         else Some e')
      else newest_visible es k s)"

definition lookup_spec :: "MemTableEntry list \<Rightarrow> bytes \<Rightarrow> 64 word \<Rightarrow> LookupResult" where
  "lookup_spec es k s =
     (case newest_visible es k s of
        None \<Rightarrow> LookupResult_NotFound
      | Some e \<Rightarrow> if vtype (internal_key e) = kDeletion then LookupResult_Deleted
                  else LookupResult_Found (entry_value e))"

section \<open>Auxiliary notions for the memtable proofs\<close>

text \<open>The strict order of the comparator, the part of an entry that the comparator
  looks at, the place where a key belongs in the sorted node list, the invariant of the
  skip list, the entries of a memtable and visibility of an entry at a snapshot: notions
  of the proofs, not functions of the source.\<close>

definition eless :: "MemTableEntry \<Rightarrow> MemTableEntry \<Rightarrow> bool" where
  "eless a b = (MemTableKeyComparator a b < 0)"

definition ekey :: "MemTableEntry \<Rightarrow> bytes \<times> 64 word" where
  "ekey e = (user_key (internal_key e), sequence (internal_key e))"

definition split_point :: "(MemTableEntry \<times> nat) list \<Rightarrow> MemTableEntry \<Rightarrow> nat" where
  "split_point xs key = length (takeWhile (\<lambda>n. eless (fst n) key) xs)"

definition sl_inv :: "MemTableEntry SkipList \<Rightarrow> bool" where
  "sl_inv l = (sorted_wrt eless (map fst (sl_nodes l)) \<and> (\<forall>n \<in> set (sl_nodes l). 1 \<le> snd n)
               \<and> 1 \<le> sl_max_height l \<and> sl_max_height l \<le> kMaxHeight)"

definition mt_entries :: "MemTable \<Rightarrow> MemTableEntry list" where
  "mt_entries m = map fst (sl_nodes (mt_table m))"

definition eseq :: "MemTableEntry \<Rightarrow> 64 word" where
  "eseq e = sequence (internal_key e)"

definition visible :: "bytes \<Rightarrow> 64 word \<Rightarrow> MemTableEntry \<Rightarrow> bool" where
  "visible k s e = (user_key (internal_key e) = k \<and> eseq e \<le> s)"

section \<open>Memtable manager (db/memtable_manager.h)\<close>

text \<open>
  \<open>mm_immutables\<close> is the deque of frozen memtables, oldest first. Every new memtable
  seeds its own random generator: \<open>mm_rngs i\<close> is the random sequence of the \<open>i\<close>-th
  memtable created. The flush callback is code of the caller; it is handed the frozen
  memtable while the manager holds its lock and is left out.
\<close>

record MemTableManager =
  mm_max_size :: nat
  mm_active :: MemTable
  mm_immutables :: "MemTable list"
  mm_current_sequence :: "64 word"
  mm_total_memory_usage :: nat
  mm_immutable_count :: nat
  mm_rngs :: "nat \<Rightarrow> nat \<Rightarrow> nat"
  mm_tables_created :: nat

definition Ref :: "MemTable \<Rightarrow> MemTable" where
  "Ref m = m\<lparr>mt_refs := mt_refs m + 1\<rparr>"

definition MemTableManager_new :: "nat \<Rightarrow> (nat \<Rightarrow> nat \<Rightarrow> nat) \<Rightarrow> MemTableManager" where
  "MemTableManager_new max_size rngs =
     \<lparr>mm_max_size = max_size, mm_active = Ref (MemTable_new max_size (rngs 0)),
      mm_immutables = [], mm_current_sequence = 0, mm_total_memory_usage = 0,
      mm_immutable_count = 0, mm_rngs = rngs, mm_tables_created = 1\<rparr>"

definition RotateLocked :: "MemTableManager \<Rightarrow> Status \<times> MemTableManager" where
  "RotateLocked mgr =
     (Status_OK,
      mgr\<lparr>mm_immutables := mm_immutables mgr @ [mm_active mgr],
          mm_immutable_count := mm_immutable_count mgr + 1,
          mm_active := Ref (MemTable_new (mm_max_size mgr) (mm_rngs mgr (mm_tables_created mgr))),
          mm_tables_created := mm_tables_created mgr + 1\<rparr>)"

text \<open>\<^verbatim>\<open>MemTableManager::Write\<close>: the result is the status, the value left in
  \<^verbatim>\<open>*rotated\<close> and the manager; \<open>None\<close> when the insertion into the active memtable
  fails its assertion. \<^verbatim>\<open>fetch_add\<close> on the 64-bit counter wraps.\<close>

definition Write ::
  "MemTableManager \<Rightarrow> ValueType \<Rightarrow> bytes \<Rightarrow> bytes
     \<Rightarrow> (Status \<times> bool \<times> MemTableManager) option" where
  "Write mgr type key val =
     (let rotate = ShouldFlush (mm_active mgr);
          (s, mgr1) = (if rotate then RotateLocked mgr else (Status_OK, mgr))
      in if \<not> ok s then Some (s, False, mgr1)
         else
           let seq = mm_current_sequence mgr1;
               mgr2 = mgr1\<lparr>mm_current_sequence := seq + 1\<rparr>
           in case (if type = kValue then MemTable_Put (mm_active mgr2) seq key val
                    else MemTable_Delete (mm_active mgr2) seq key) of
                None \<Rightarrow> None
              | Some active \<Rightarrow>
                  let entry_size = length key + length val + 32
                  in Some (Status_OK, rotate,
                           mgr2\<lparr>mm_active := active,
                                mm_total_memory_usage :=
                                  mm_total_memory_usage mgr2 + entry_size\<rparr>))"

definition MemTableManager_Put ::
  "MemTableManager \<Rightarrow> bytes \<Rightarrow> bytes \<Rightarrow> (Status \<times> bool \<times> MemTableManager) option" where
  "MemTableManager_Put mgr key val = Write mgr kValue key val"

definition MemTableManager_Delete ::
  "MemTableManager \<Rightarrow> bytes \<Rightarrow> (Status \<times> bool \<times> MemTableManager) option" where
  "MemTableManager_Delete mgr key = Write mgr kDeletion key []"

definition CurrentSequence :: "MemTableManager \<Rightarrow> 64 word" where
  "CurrentSequence mgr = mm_current_sequence mgr"

text \<open>\<^verbatim>\<open>Get(key, snapshot)\<close>: the active memtable first, then the immutable ones from
  the newest to the oldest; the first result with \<^verbatim>\<open>found\<close> set is returned.\<close>

fun Get_immutables :: "MemTable list \<Rightarrow> bytes \<Rightarrow> 64 word \<Rightarrow> LookupResult" where
  "Get_immutables [] key snapshot = LookupResult_NotFound"
| "Get_immutables (imm # rest) key snapshot =
     (let result = MemTable_Get imm key snapshot
      in if found result then result else Get_immutables rest key snapshot)"

definition MemTableManager_Get_at :: "MemTableManager \<Rightarrow> bytes \<Rightarrow> 64 word \<Rightarrow> LookupResult" where
  "MemTableManager_Get_at mgr key snapshot =
     (let result = MemTable_Get (mm_active mgr) key snapshot
      in if found result then result
         else Get_immutables (rev (mm_immutables mgr)) key snapshot)"

definition MemTableManager_Get :: "MemTableManager \<Rightarrow> bytes \<Rightarrow> LookupResult" where
  "MemTableManager_Get mgr key = MemTableManager_Get_at mgr key (mm_current_sequence mgr)"

text \<open>The calls of the claims about the manager: the manager after a call and the
  status of the call (\<open>None\<close>: the call aborts), a list of calls one after the other, and
  what each call writes.\<close>

datatype ManagerOp = MPut bytes bytes | MDelete bytes

fun Manager_apply :: "MemTableManager \<Rightarrow> ManagerOp \<Rightarrow> MemTableManager option" where
  "Manager_apply mgr (MPut key val) = map_option (\<lambda>r. snd (snd r)) (MemTableManager_Put mgr key val)"
| "Manager_apply mgr (MDelete key) = map_option (\<lambda>r. snd (snd r)) (MemTableManager_Delete mgr key)"

fun Manager_status :: "MemTableManager \<Rightarrow> ManagerOp \<Rightarrow> Status option" where
  "Manager_status mgr (MPut key val) = map_option fst (MemTableManager_Put mgr key val)"
| "Manager_status mgr (MDelete key) = map_option fst (MemTableManager_Delete mgr key)"

fun Manager_apply_all :: "MemTableManager \<Rightarrow> ManagerOp list \<Rightarrow> MemTableManager option" where
  "Manager_apply_all mgr [] = Some mgr"
| "Manager_apply_all mgr (op # ops) =
     (case Manager_apply mgr op of
        None \<Rightarrow> None
      | Some mgr' \<Rightarrow> Manager_apply_all mgr' ops)"

fun mop_key :: "ManagerOp \<Rightarrow> bytes" where
  "mop_key (MPut key val) = key"
| "mop_key (MDelete key) = key"

fun mop_result :: "ManagerOp \<Rightarrow> LookupResult" where
  "mop_result (MPut key val) = LookupResult_Found val"
| "mop_result (MDelete key) = LookupResult_Deleted"

text \<open>All entries held by the manager, the oldest memtable first.\<close>

definition stored_entries :: "MemTableManager \<Rightarrow> MemTableEntry list" where
  "stored_entries mgr = concat (map mt_entries (mm_immutables mgr @ [mm_active mgr]))"

text \<open>What a reader that sees all writes gets for a key: the result of the last write
  to it.\<close>

definition last_write :: "ManagerOp list \<Rightarrow> bytes \<Rightarrow> LookupResult" where
  "last_write ops key =
     fold (\<lambda>op r. if mop_key op = key then mop_result op else r) ops LookupResult_NotFound"

section \<open>Auxiliary notions for the manager proofs\<close>

text \<open>The entry that a call writes under a given sequence number, the entries written
  by a list of calls, the age order of memtables and the invariant of the manager:
  notions of the proofs, not functions of the source.\<close>

fun mop_entry :: "ManagerOp \<Rightarrow> 64 word \<Rightarrow> MemTableEntry" where
  "mop_entry (MPut key val) seq =
     \<lparr>internal_key = \<lparr>user_key = key, sequence = seq, vtype = kValue\<rparr>, entry_value = val\<rparr>"
| "mop_entry (MDelete key) seq =
     \<lparr>internal_key = \<lparr>user_key = key, sequence = seq, vtype = kDeletion\<rparr>, entry_value = []\<rparr>"

fun written_entries :: "ManagerOp list \<Rightarrow> nat \<Rightarrow> MemTableEntry list" where
  "written_entries [] n = []"
| "written_entries (op # ops) n = mop_entry op (of_nat n) # written_entries ops (Suc n)"

definition older :: "MemTable \<Rightarrow> MemTable \<Rightarrow> bool" where
  "older a b = (\<forall>e \<in> set (mt_entries a). \<forall>e' \<in> set (mt_entries b). eseq e < eseq e')"

definition mgr_chain :: "MemTableManager \<Rightarrow> MemTable list" where
  "mgr_chain mgr = mm_immutables mgr @ [mm_active mgr]"

definition mgr_inv :: "MemTableManager \<Rightarrow> nat \<Rightarrow> bool" where
  "mgr_inv mgr n =
     (mm_current_sequence mgr = of_nat n
      \<and> (\<forall>t \<in> set (mgr_chain mgr). sl_inv (mt_table t))
      \<and> sorted_wrt older (mgr_chain mgr)
      \<and> eseq ` set (stored_entries mgr) = of_nat ` {..<n}
      \<and> length (stored_entries mgr) = n)"

definition maybe_rotate :: "MemTableManager \<Rightarrow> MemTableManager" where
  "maybe_rotate mgr = (if ShouldFlush (mm_active mgr) then snd (RotateLocked mgr) else mgr)"

section \<open>WAL recovery (wal/wal_manager.h)\<close>

text \<open>\<^verbatim>\<open>RecoveryStats\<close> without \<^verbatim>\<open>duration\<close>, which is wall-clock time.\<close>

record RecoveryStats =
  records_read :: nat
  bytes_read :: nat
  puts_recovered :: nat
  deletes_recovered :: nat
  rs_max_sequence :: "64 word"

definition RecoveryStats_new :: RecoveryStats where
  "RecoveryStats_new =
     \<lparr>records_read = 0, bytes_read = 0, puts_recovered = 0, deletes_recovered = 0,
      rs_max_sequence = 0\<rparr>"

text \<open>The body of the replay loop of \<^verbatim>\<open>Recover\<close> for one entry; \<open>None\<close> when the
  insertion into the memtable fails its assertion.\<close>

definition Recover_entry ::
  "WALEntry \<Rightarrow> MemTable \<times> RecoveryStats \<Rightarrow> (MemTable \<times> RecoveryStats) option" where
  "Recover_entry entry ms =
     (let (m, st) = ms;
          st = st\<lparr>records_read := records_read st + 1\<rparr>
      in case (if we_type entry = kPut
               then (case MemTable_Put m (we_sequence entry) (we_key entry) (we_value entry) of
                       None \<Rightarrow> None
                     | Some m \<Rightarrow> Some (m, st\<lparr>puts_recovered := puts_recovered st + 1\<rparr>))
               else if we_type entry = kDelete
               then (case MemTable_Delete m (we_sequence entry) (we_key entry) of
                       None \<Rightarrow> None
                     | Some m \<Rightarrow> Some (m, st\<lparr>deletes_recovered := deletes_recovered st + 1\<rparr>))
               else Some (m, st)) of
           None \<Rightarrow> None
         | Some (m, st) \<Rightarrow>
             Some (m, if rs_max_sequence st < we_sequence entry
                      then st\<lparr>rs_max_sequence := we_sequence entry\<rparr> else st))"

lemma ReadRecord_advances:
  assumes "ReadRecord r = (res, r')" "\<not> rr_eof res" "ok (rr_status res)"
  shows "wr_pos r < wr_pos r' \<and> wr_pos r' \<le> wr_size r \<and> wr_size r' = wr_size r"
  using assms
  by (auto simp add: ReadRecord_def ReadResult_Eof_def ReadResult_Error_def ReadResult_OK_def
      Status_Corruption_def ok_def kHeaderSize_def Let_def split: option.splits if_splits)

lemma ReadEntry_advances:
  assumes "ReadEntry decode r = (Inr entry, r')"
  shows "wr_size r' - wr_pos r' < wr_size r - wr_pos r"
proof -
  obtain res where rr: "ReadRecord r = (res, r')"
    using assms by (cases "ReadRecord r") (auto simp add: ReadEntry_def Let_def split: if_splits option.splits)
  have "\<not> rr_eof res \<and> ok (rr_status res)"
    using assms rr by (auto simp add: ReadEntry_def Let_def split: if_splits option.splits)
  then have "wr_pos r < wr_pos r' \<and> wr_pos r' \<le> wr_size r \<and> wr_size r' = wr_size r"
    using rr ReadRecord_advances by blast
  then show ?thesis by linarith
qed

text \<open>The loop \<^verbatim>\<open>while (reader.ReadEntry(&entry, &read_status)) { ... }\<close>: the result is
  the last status, the reader, the memtable and the statistics, or \<open>None\<close> when an
  insertion aborts.\<close>

function replay ::
  "(bytes \<Rightarrow> WALEntry option) \<Rightarrow> WALReader \<Rightarrow> MemTable \<times> RecoveryStats
     \<Rightarrow> (Status \<times> WALReader \<times> MemTable \<times> RecoveryStats) option" where
  "replay decode r ms =
     (case ReadEntry decode r of
        (Inr entry, r') \<Rightarrow>
          (case Recover_entry entry ms of
             None \<Rightarrow> None
           | Some ms' \<Rightarrow> replay decode r' ms')
      | (Inl read_status, r') \<Rightarrow> Some (read_status, r', ms))"
  by pat_completeness auto
termination
  by (relation "measure (\<lambda>(decode, r, ms). wr_size r - wr_pos r)")
     (auto dest!: ReadEntry_advances [OF sym])

declare replay.simps [simp del]

text \<open>
  \<^verbatim>\<open>WALManager::LogPath\<close>: \<^verbatim>\<open>WalDir()\<close>, which is \<^verbatim>\<open>db_path_ + "/wal"\<close>, followed by what
  \<^verbatim>\<open>snprintf(buf, sizeof(buf), "/log.%06llu", number)\<close> writes: the decimal numeral of
  the number, padded with zeros to six digits. The buffer of 32 bytes holds every
  64-bit number.
\<close>

function decimal :: "nat \<Rightarrow> string" where
  "decimal n =
     (if n < 10 then [''0123456789'' ! n]
      else decimal (n div 10) @ [''0123456789'' ! (n mod 10)])"
  by pat_completeness auto
termination
  by (relation "measure id") auto

declare decimal.simps [simp del]

definition LogPath :: "string \<Rightarrow> nat \<Rightarrow> string" where
  "LogPath db_path number =
     (db_path @ ''/wal'') @ ''/log.''
       @ replicate (6 - length (decimal number)) (CHR ''0'') @ decimal number"

text \<open>
  The loop of \<^verbatim>\<open>Recover\<close> over the segments, each with its log number, in the order of
  the numbers. A segment that cannot be opened is skipped (\<^verbatim>\<open>continue\<close>); after a
  segment a status that is neither OK nor Corruption is returned at once.
\<close>

fun Recover_segments ::
  "(bytes \<Rightarrow> WALEntry option) \<Rightarrow> string \<Rightarrow> (nat \<times> segment_file) list
     \<Rightarrow> MemTable \<times> RecoveryStats \<Rightarrow> (Status \<times> MemTable \<times> RecoveryStats) option" where
  "Recover_segments decode db_path [] ms = Some (Status_OK, ms)"
| "Recover_segments decode db_path ((log_num, seg) # segs) ms =
     (let (s, reader) = WALReader_Open (LogPath db_path log_num) seg
      in if \<not> ok s then Recover_segments decode db_path segs ms
         else
           case replay decode reader ms of
             None \<Rightarrow> None
           | Some (read_status, reader, m, st) \<Rightarrow>
               let st = st\<lparr>bytes_read := bytes_read st + wr_size reader\<rparr>
               in if \<not> ok read_status \<and> \<not> IsCorruption read_status
                  then Some (read_status, m, st)
                  else Recover_segments decode db_path segs (m, st))"

text \<open>What \<^verbatim>\<open>ListLogFiles\<close> finds: an error from \<^verbatim>\<open>opendir\<close> other than a missing
  directory, or the log numbers in ascending order, each with its segment file (no
  segment when the directory is missing).\<close>

datatype wal_directory = OpendirFails | Segments "(nat \<times> segment_file) list"

text \<open>\<^verbatim>\<open>WALManager::Recover\<close> of a manager with the given \<^verbatim>\<open>db_path_\<close>: the status, the
  memtable and what is stored in \<^verbatim>\<open>*stats\<close> (\<open>None\<close>: not written); \<open>None\<close> when an
  insertion aborts.\<close>

definition Recover ::
  "(bytes \<Rightarrow> WALEntry option) \<Rightarrow> string \<Rightarrow> wal_directory \<Rightarrow> MemTable
     \<Rightarrow> (Status \<times> MemTable \<times> RecoveryStats option) option" where
  "Recover decode db_path dir memtable =
     (case dir of
        OpendirFails \<Rightarrow> Some (Status_IOError ''Failed to open WAL directory'', memtable, None)
      | Segments segs \<Rightarrow>
          (case Recover_segments decode db_path segs (memtable, RecoveryStats_new) of
             None \<Rightarrow> None
           | Some (s, m, st) \<Rightarrow>
               if ok s then Some (Status_OK, m, Some st) else Some (s, m, None)))"

section \<open>Auxiliary notions for the statements about recovery\<close>

text \<open>
  A segment file that holds the records of some payloads, which decode to some
  entries, followed by a tail; the calls of the memtable that a list of entries stands
  for; the condition that reading stops at the tail, because the tail is empty or
  because \<^verbatim>\<open>ReadEntry\<close> reports a corruption there; and the statistics after a list of
  entries: notions of the statements and proofs, not functions of the source.
\<close>

record segment_contents =
  sc_payloads :: "bytes list"
  sc_entries :: "WALEntry list"
  sc_tail :: bytes

definition log_file :: "segment_contents \<Rightarrow> bytes" where
  "log_file lg = concat (map WAL_record (sc_payloads lg)) @ sc_tail lg"

fun readable :: "segment_file \<Rightarrow> bool" where
  "readable (Readable contents) = True"
| "readable OpenFails = False"
| "readable StatFails = False"
| "readable MmapFails = False"

fun entry_ops :: "WALEntry list \<Rightarrow> MemTableOp list" where
  "entry_ops [] = []"
| "entry_ops (e # es) =
     (if we_type e = kPut then Put (we_sequence e) (we_key e) (we_value e) # entry_ops es
      else if we_type e = kDelete then Delete (we_sequence e) (we_key e) # entry_ops es
      else entry_ops es)"

definition stops_at_tail :: "(bytes \<Rightarrow> WALEntry option) \<Rightarrow> segment_contents \<Rightarrow> bool" where
  "stops_at_tail decode lg =
     (case fst (ReadEntry decode
                  \<lparr>wr_fd = 3, wr_data = Some (log_file lg), wr_size = length (log_file lg),
                   wr_pos = length (log_file lg) - length (sc_tail lg)\<rparr>) of
        Inl s \<Rightarrow> sc_tail lg = [] \<or> IsCorruption s
      | Inr entry \<Rightarrow> False)"

definition stats_after :: "WALEntry list \<Rightarrow> RecoveryStats \<Rightarrow> RecoveryStats" where
  "stats_after es st =
     st\<lparr>records_read := records_read st + length es,
        puts_recovered := puts_recovered st + length [e \<leftarrow> es. we_type e = kPut],
        deletes_recovered := deletes_recovered st + length [e \<leftarrow> es. we_type e = kDelete],
        rs_max_sequence := fold max (map we_sequence es) (rs_max_sequence st)\<rparr>"

fun Recover_entries ::
  "WALEntry list \<Rightarrow> MemTable \<times> RecoveryStats \<Rightarrow> (MemTable \<times> RecoveryStats) option" where
  "Recover_entries [] ms = Some ms"
| "Recover_entries (e # es) ms =
     (case Recover_entry e ms of
        None \<Rightarrow> None
      | Some ms' \<Rightarrow> Recover_entries es ms')"

section \<open>SSTable writer (sstable/sstable_writer.h)\<close>

record SSTableWriteStats =
  data_size :: nat
  index_size :: nat
  bloom_size :: nat
  stats_num_entries :: nat
  num_data_blocks :: nat
  raw_key_size :: nat
  raw_value_size :: nat
  min_seq :: "64 word"
  max_seq :: "64 word"

definition SSTableWriteStats_new :: SSTableWriteStats where
  "SSTableWriteStats_new =
     \<lparr>data_size = 0, index_size = 0, bloom_size = 0, stats_num_entries = 0, num_data_blocks = 0,
      raw_key_size = 0, raw_value_size = 0, min_seq = kMaxSequenceNumber, max_seq = 0\<rparr>"

text \<open>The writer with its path and its options; \<open>sw_file\<close> is the content of the file
  behind \<^verbatim>\<open>fd_\<close>.\<close>

record SSTableWriter =
  sw_path :: string
  sw_block_size :: nat
  sw_restart_interval :: int
  sw_use_bloom_filter :: bool
  sw_bits_per_key :: int
  sw_fd :: int
  sw_offset :: "64 word"
  sw_data_block :: BlockBuilder
  sw_index_builder :: IndexBlockBuilder
  sw_bloom_builder :: BloomFilterBuilder
  sw_closed :: bool
  sw_num_entries :: nat
  sw_first_key :: bytes
  sw_last_key :: bytes
  sw_min_sequence :: "64 word"
  sw_max_sequence :: "64 word"
  sw_stats :: SSTableWriteStats
  sw_file :: bytes

text \<open>The constructor \<^verbatim>\<open>SSTableWriter(path, options)\<close>; it constructs the two block
  builders, whose constructor asserts.\<close>

definition SSTableWriter_new :: "string \<Rightarrow> nat \<Rightarrow> int \<Rightarrow> bool \<Rightarrow> int \<Rightarrow> SSTableWriter option" where
  "SSTableWriter_new path block_size restart_interval use_bloom_filter bits_per_key =
     (case BlockBuilder_new restart_interval of
        None \<Rightarrow> None
      | Some data_block \<Rightarrow>
          (case IndexBlockBuilder_new of
             None \<Rightarrow> None
           | Some index_builder \<Rightarrow>
               Some \<lparr>sw_path = path, sw_block_size = block_size,
                     sw_restart_interval = restart_interval,
                     sw_use_bloom_filter = use_bloom_filter, sw_bits_per_key = bits_per_key,
                     sw_fd = -1, sw_offset = 0, sw_data_block = data_block,
                     sw_index_builder = index_builder,
                     sw_bloom_builder = BloomFilterBuilder_new bits_per_key,
                     sw_closed = False, sw_num_entries = 0, sw_first_key = [], sw_last_key = [],
                     sw_min_sequence = kMaxSequenceNumber, sw_max_sequence = 0,
                     sw_stats = SSTableWriteStats_new, sw_file = []\<rparr>))"

text \<open>\<^verbatim>\<open>Open\<close>: \<^verbatim>\<open>open(..., O_WRONLY | O_CREAT | O_TRUNC)\<close> succeeds or not.\<close>

definition SSTableWriter_Open :: "bool \<Rightarrow> SSTableWriter \<Rightarrow> Status \<times> SSTableWriter" where
  "SSTableWriter_Open open_ok w =
     (if open_ok then (Status_OK, w\<lparr>sw_fd := 3, sw_file := []\<rparr>)
      else (Status_IOError (''Failed to create SSTable: '' @ sw_path w), w\<lparr>sw_fd := -1\<rparr>))"

text \<open>
  \<^verbatim>\<open>WriteRaw\<close>: the loop calls \<^verbatim>\<open>write\<close> until nothing remains, goes on after
  \<^verbatim>\<open>EINTR\<close> and after a short write, and fails on any other error. The answers of
  \<^verbatim>\<open>write\<close> are taken from a list; the result is \<open>None\<close> when the list ends while
  bytes remain (the loop is still running), otherwise the status, the file, the offset
  and the unused answers. In the functions that follow \<open>None\<close> is a call that does not
  return: \<^verbatim>\<open>WriteRaw\<close> is still running, or an assertion of a block builder has failed.
\<close>

fun WriteRaw_loop ::
  "write_result list \<Rightarrow> bytes \<Rightarrow> 64 word \<Rightarrow> bytes
     \<Rightarrow> (Status \<times> bytes \<times> 64 word \<times> write_result list) option" where
  "WriteRaw_loop answers file off [] = Some (Status_OK, file, off, answers)"
| "WriteRaw_loop [] file off (d # ds) = None"
| "WriteRaw_loop (WriteFailed e # answers) file off (d # ds) =
     (if e = EINTR then WriteRaw_loop answers file off (d # ds)
      else Some (Status_IOError ''Failed to write to SSTable'', file, off, answers))"
| "WriteRaw_loop (Written k # answers) file off (d # ds) =
     WriteRaw_loop answers (file @ take k (d # ds))
       (off + of_nat (min k (length (d # ds)))) (drop k (d # ds))"

definition WriteRaw ::
  "write_result list \<Rightarrow> SSTableWriter \<Rightarrow> bytes
     \<Rightarrow> (Status \<times> SSTableWriter \<times> write_result list) option" where
  "WriteRaw answers w data =
     (case WriteRaw_loop answers (sw_file w) (sw_offset w) data of
        None \<Rightarrow> None
      | Some (s, file, off, answers') \<Rightarrow> Some (s, w\<lparr>sw_file := file, sw_offset := off\<rparr>, answers'))"

definition FlushDataBlock ::
  "write_result list \<Rightarrow> SSTableWriter \<Rightarrow> (Status \<times> SSTableWriter \<times> write_result list) option" where
  "FlushDataBlock answers w =
     (if BlockBuilder_Empty (sw_data_block w) then Some (Status_OK, w, answers)
      else
        let (block_contents, bb) = BlockBuilder_Finish (sw_data_block w);
            w = w\<lparr>sw_data_block := bb\<rparr>;
            block_with_trailer = AddTrailer block_contents kData;
            handle = \<lparr>handle_offset = sw_offset w,
                      handle_size = of_nat (length block_with_trailer)\<rparr>
        in case WriteRaw answers w block_with_trailer of
             None \<Rightarrow> None
           | Some (s, w, answers) \<Rightarrow>
               if \<not> ok s then Some (s, w, answers)
               else
                 case IndexBlockBuilder_AddEntry (sw_index_builder w)
                        (bb_last_key (sw_data_block w)) handle of
                   None \<Rightarrow> None
                 | Some index_builder \<Rightarrow>
                     let st = sw_stats w
                     in Some (Status_OK,
                              w\<lparr>sw_index_builder := index_builder,
                                sw_stats := st\<lparr>data_size := data_size st + length block_with_trailer,
                                               num_data_blocks := num_data_blocks st + 1\<rparr>,
                                sw_data_block := BlockBuilder_Reset (sw_data_block w)\<rparr>,
                              answers))"

text \<open>\<^verbatim>\<open>SSTableWriter::Add(key, value, seq, type)\<close>.\<close>

definition SSTableWriter_Add ::
  "write_result list \<Rightarrow> SSTableWriter \<Rightarrow> bytes \<Rightarrow> bytes \<Rightarrow> 64 word \<Rightarrow> ValueType
     \<Rightarrow> (Status \<times> SSTableWriter \<times> write_result list) option" where
  "SSTableWriter_Add answers w key val seq type =
     (if sw_fd w < 0 then Some (Status_IOError ''SSTable not open'', w, answers)
      else
        let ikey = EncodeInternalKey key seq type;
            st = sw_stats w;
            w = (if sw_num_entries w = 0
                 then w\<lparr>sw_first_key := ikey, sw_stats := st\<lparr>min_seq := seq\<rparr>\<rparr> else w);
            w = w\<lparr>sw_last_key := ikey\<rparr>;
            w = (if seq < sw_min_sequence w then w\<lparr>sw_min_sequence := seq\<rparr> else w);
            w = (if sw_max_sequence w < seq then w\<lparr>sw_max_sequence := seq\<rparr> else w)
        in case BlockBuilder_Add (sw_data_block w) ikey val of
             None \<Rightarrow> None
           | Some data_block \<Rightarrow>
               let w = w\<lparr>sw_data_block := data_block, sw_num_entries := sw_num_entries w + 1\<rparr>;
                   w = (if sw_use_bloom_filter w
                        then w\<lparr>sw_bloom_builder := AddKey (sw_bloom_builder w) key\<rparr> else w);
                   st = sw_stats w;
                   w = w\<lparr>sw_stats := st\<lparr>raw_key_size := raw_key_size st + length key,
                                           raw_value_size := raw_value_size st + length val\<rparr>\<rparr>
               in if sw_block_size w \<le> BlockBuilder_CurrentSizeEstimate (sw_data_block w)
                  then FlushDataBlock answers w
                  else Some (Status_OK, w, answers))"

definition WriteIndexBlock ::
  "write_result list \<Rightarrow> SSTableWriter
     \<Rightarrow> (Status \<times> BlockHandle \<times> SSTableWriter \<times> write_result list) option" where
  "WriteIndexBlock answers w =
     (let (index_contents, ib) = IndexBlockBuilder_Finish (sw_index_builder w);
          w = w\<lparr>sw_index_builder := ib\<rparr>;
          block_with_trailer = AddTrailer index_contents kIndex;
          handle = \<lparr>handle_offset = sw_offset w, handle_size = of_nat (length block_with_trailer)\<rparr>;
          st = sw_stats w;
          w = w\<lparr>sw_stats := st\<lparr>index_size := length block_with_trailer\<rparr>\<rparr>
      in case WriteRaw answers w block_with_trailer of
           None \<Rightarrow> None
         | Some (s, w, answers) \<Rightarrow> Some (s, handle, w, answers))"

definition WriteBloomFilter ::
  "write_result list \<Rightarrow> SSTableWriter
     \<Rightarrow> (Status \<times> BlockHandle \<times> SSTableWriter \<times> write_result list) option" where
  "WriteBloomFilter answers w =
     (if \<not> sw_use_bloom_filter w \<or> bf_num_keys (sw_bloom_builder w) = 0
      then Some (Status_OK, \<lparr>handle_offset = 0, handle_size = 0\<rparr>, w, answers)
      else
        let bloom_data = BloomFilterBuilder_Finish (sw_bloom_builder w);
            handle = \<lparr>handle_offset = sw_offset w, handle_size = of_nat (length bloom_data)\<rparr>;
            st = sw_stats w;
            w = w\<lparr>sw_stats := st\<lparr>bloom_size := length bloom_data\<rparr>\<rparr>
        in case WriteRaw answers w bloom_data of
             None \<Rightarrow> None
           | Some (s, w, answers) \<Rightarrow> Some (s, handle, w, answers))"

text \<open>The footer that \<^verbatim>\<open>WriteFooter\<close> fills in, and \<^verbatim>\<open>WriteFooter\<close>.\<close>

definition writer_footer :: "SSTableWriter \<Rightarrow> BlockHandle \<Rightarrow> BlockHandle \<Rightarrow> Footer" where
  "writer_footer w index_h bloom_h =
     \<lparr>index_handle = index_h, bloom_handle = bloom_h,
      num_entries = of_nat (sw_num_entries w),
      min_sequence = sw_min_sequence w, max_sequence = sw_max_sequence w,
      min_key = (if sw_first_key w \<noteq> [] then ExtractUserKey (sw_first_key w) else []),
      max_key = (if sw_last_key w \<noteq> [] then ExtractUserKey (sw_last_key w) else [])\<rparr>"

definition WriteFooter ::
  "write_result list \<Rightarrow> SSTableWriter \<Rightarrow> BlockHandle \<Rightarrow> BlockHandle
     \<Rightarrow> (Status \<times> SSTableWriter \<times> write_result list) option" where
  "WriteFooter answers w index_h bloom_h =
     WriteRaw answers w (Footer_Encode (writer_footer w index_h bloom_h))"

text \<open>\<^verbatim>\<open>SSTableWriter::Finish(&stats)\<close>: the status, the statistics stored in \<^verbatim>\<open>*stats\<close>
  (\<open>None\<close>: not written), the writer and the unused answers of \<^verbatim>\<open>write\<close>; \<open>fsync_ok\<close>
  and \<open>close_ok\<close> are the answers of \<^verbatim>\<open>fsync\<close> and \<^verbatim>\<open>close\<close>.\<close>

definition SSTableWriter_Finish ::
  "write_result list \<Rightarrow> bool \<Rightarrow> bool \<Rightarrow> SSTableWriter
     \<Rightarrow> (Status \<times> SSTableWriteStats option \<times> SSTableWriter \<times> write_result list) option" where
  "SSTableWriter_Finish answers fsync_ok close_ok w =
     (if sw_fd w < 0 then Some (Status_IOError ''SSTable not open'', None, w, answers)
      else
        case (if \<not> BlockBuilder_Empty (sw_data_block w) then FlushDataBlock answers w
              else Some (Status_OK, w, answers)) of
          None \<Rightarrow> None
        | Some (s, w, answers) \<Rightarrow>
            if \<not> ok s then Some (s, None, w, answers)
            else
              case WriteIndexBlock answers w of
                None \<Rightarrow> None
              | Some (s, index_h, w, answers) \<Rightarrow>
                  if \<not> ok s then Some (s, None, w, answers)
                  else
                    case WriteBloomFilter answers w of
                      None \<Rightarrow> None
                    | Some (s, bloom_h, w, answers) \<Rightarrow>
                        if \<not> ok s then Some (s, None, w, answers)
                        else
                          case WriteFooter answers w index_h bloom_h of
                            None \<Rightarrow> None
                          | Some (s, w, answers) \<Rightarrow>
                              if \<not> ok s then Some (s, None, w, answers)
                              else if \<not> fsync_ok
                              then Some (Status_IOError ''Failed to sync SSTable'', None, w, answers)
                              else if \<not> close_ok
                              then Some (Status_IOError ''Failed to close SSTable'', None, w, answers)
                              else
                                let w = w\<lparr>sw_fd := -1, sw_closed := True\<rparr>;
                                    st = (sw_stats w)\<lparr>stats_num_entries := sw_num_entries w,
                                                      min_seq := sw_min_sequence w,
                                                      max_seq := sw_max_sequence w\<rparr>
                                in Some (Status_OK, Some st, w, answers))"

section \<open>The SSTable without entries\<close>

text \<open>The footer that the claim about an SSTable without entries names, with the handle
  of the index block at offset 0: a value for the statement of the theorem, not a
  function of the source.\<close>

definition empty_footer :: Footer where
  "empty_footer =
     \<lparr>index_handle = \<lparr>handle_offset = 0, handle_size = 13\<rparr>,
      bloom_handle = \<lparr>handle_offset = 0, handle_size = 0\<rparr>,
      num_entries = 0, min_sequence = 0xFFFFFFFFFFFFFFFF, max_sequence = 0,
      min_key = [], max_key = []\<rparr>"

section \<open>Helper lemmas\<close>

lemma length_EncodeFixed32 [simp]: "length (EncodeFixed32 v) = 4"
  by (simp add: EncodeFixed32_def)

lemma length_EncodeFixed64 [simp]: "length (EncodeFixed64 v) = 8"
  by (simp add: EncodeFixed64_def)

lemma append_less_append: "(k @ a < k @ b) = (a < (b :: 'a :: linorder list))"
  by (induction k) simp_all

lemma trunc_quot_floor:
  assumes "0 \<le> a" "0 < b"
  shows "trunc_quot a b = \<lfloor>of_int a / (of_int b :: real)\<rfloor>"
  using assms by (simp add: trunc_quot_def floor_divide_of_int_eq sgn_if)

lemma OptimalNumHashes_clamp:
  "OptimalNumHashes b = max 1 (min 30 (trunc_quot (b * 69314718056) 100000000000))"
  by (simp add: OptimalNumHashes_def Let_def)

lemma OptimalNumHashes_range: "1 \<le> OptimalNumHashes b \<and> OptimalNumHashes b \<le> 30"
  by (simp add: OptimalNumHashes_def Let_def)

lemma length_Footer_Encode: "length (Footer_Encode f) = max 64 (length (Footer_fields f) + 8)"
  by (simp add: Footer_Encode_def Let_def kFooterSize_def)

section \<open>SSTable internal key order\<close>

text \<open>
  C2. The claim: for sequences \<open>s1 > s2\<close> the encoded key of \<open>s1\<close> is the smaller byte
  string, so that memtable order satisfies the assertion of \<^verbatim>\<open>BlockBuilder::Add\<close>.
  On the code the packed value is written little-endian, so the type byte and then the
  low byte of the sequence are compared first: for every user key and type the entry
  with sequence 1 sorts before the entry with sequence 2, and adding sequence 2 and
  then sequence 1 (the memtable's order) to a new block builder breaks the assertion of
  \<^verbatim>\<open>Add\<close>: the first call returns, the second one aborts.
\<close>

theorem C2_newer_entry_sorts_later:
  "EncodeInternalKey k 1 t < EncodeInternalKey k 2 t
   \<and> \<not> EncodeInternalKey k 2 t < EncodeInternalKey k 1 t
   \<and> (\<exists>b0 b1. BlockBuilder_new 16 = Some b0
         \<and> BlockBuilder_Add b0 (EncodeInternalKey k 2 t) v = Some b1
         \<and> \<not> BlockBuilder_Add_asserts b1 (EncodeInternalKey k 1 t)
         \<and> BlockBuilder_Add b1 (EncodeInternalKey k 1 t) v' = None)"
proof -
  have lt: "EncodeInternalKey k 1 t < EncodeInternalKey k 2 t"
    by (cases t) (simp_all add: EncodeInternalKey_def EncodeFixed64_def upt_conv_Cons append_less_append)
  then have nlt: "\<not> EncodeInternalKey k 2 t < EncodeInternalKey k 1 t"
    by (simp add: not_less less_imp_le)
  let ?b0 = "\<lparr>bb_buffer = [], bb_restarts = [0], bb_last_key = [], bb_restart_interval = 16,
              bb_counter = 0, bb_finished = False\<rparr>"
  let ?b1 = "the (BlockBuilder_Add ?b0 (EncodeInternalKey k 2 t) v)"
  have new: "BlockBuilder_new 16 = Some ?b0" by (simp add: BlockBuilder_new_def)
  have a0: "BlockBuilder_Add_asserts ?b0 (EncodeInternalKey k 2 t)"
    by (simp add: BlockBuilder_Add_asserts_def)
  have add1: "BlockBuilder_Add ?b0 (EncodeInternalKey k 2 t) v = Some ?b1"
    using a0 by (simp add: BlockBuilder_Add_def Let_def)
  have "bb_last_key ?b1 = EncodeInternalKey k 2 t"
    using a0 by (simp add: BlockBuilder_Add_def Let_def)
  moreover have "bb_buffer ?b1 \<noteq> []"
    using a0 by (simp add: BlockBuilder_Add_def Let_def)
  ultimately have a1: "\<not> BlockBuilder_Add_asserts ?b1 (EncodeInternalKey k 1 t)"
    using nlt by (simp add: BlockBuilder_Add_asserts_def)
  then have add2: "BlockBuilder_Add ?b1 (EncodeInternalKey k 1 t) v' = None"
    by (simp add: BlockBuilder_Add_def)
  show ?thesis using lt nlt new add1 a1 add2 by blast
qed

section \<open>Number of hash functions\<close>

text \<open>
  C6. The claim: \<^verbatim>\<open>OptimalNumHashes\<close> rounds \<open>bits_per_key \<cdot> ln 2\<close> to the nearest
  integer, giving 7 for the default of 10 bits per key. The cast to \<^verbatim>\<open>int\<close>
  truncates: the default policy gives 6.
\<close>

theorem C6_default_is_not_7:
  "OptimalNumHashes BloomFilterPolicy_default_bits_per_key \<noteq> 7"
  by (simp add: OptimalNumHashes_def trunc_quot_def Let_def BloomFilterPolicy_default_bits_per_key_def)

text \<open>
  C6, amended: for every \<open>bits_per_key\<close> the result is the integer part of
  \<open>bits_per_key \<cdot> 0.69314718056\<close> clamped to \<open>[1, 30]\<close>, which is 6 for the default.
\<close>

theorem C6_OptimalNumHashes_truncates:
  "OptimalNumHashes b = max 1 (min 30 \<lfloor>of_int b * (0.69314718056 :: real)\<rfloor>)
   \<and> OptimalNumHashes BloomFilterPolicy_default_bits_per_key = 6"
proof -
  have main: "OptimalNumHashes b = max 1 (min 30 \<lfloor>of_int b * (0.69314718056 :: real)\<rfloor>)"
  proof (cases "0 \<le> b")
    case True
    have "trunc_quot (b * 69314718056) 100000000000
            = \<lfloor>of_int (b * 69314718056) / (of_int 100000000000 :: real)\<rfloor>"
      using True by (intro trunc_quot_floor) simp_all
    also have "\<dots> = \<lfloor>of_int b * (0.69314718056 :: real)\<rfloor>" by (simp add: mult.commute)
    finally show ?thesis by (simp only: OptimalNumHashes_clamp)
  next
    case False
    then have neg: "b < 0" by simp
    then have t: "trunc_quot (b * 69314718056) 100000000000 \<le> 0"
      by (simp add: trunc_quot_def sgn_if mult_less_0_iff)
    have "of_int b * (0.69314718056 :: real) < 0" using neg by (simp add: mult_less_0_iff)
    then have f: "\<lfloor>of_int b * (0.69314718056 :: real)\<rfloor> \<le> 0" by linarith
    have "max 1 (min 30 (trunc_quot (b * 69314718056) 100000000000)) = 1" using t by linarith
    moreover have "max 1 (min 30 \<lfloor>of_int b * (0.69314718056 :: real)\<rfloor>) = 1" using f by linarith
    ultimately show ?thesis by (simp only: OptimalNumHashes_clamp)
  qed
  have "OptimalNumHashes BloomFilterPolicy_default_bits_per_key = 6"
    by (simp add: OptimalNumHashes_def trunc_quot_def Let_def BloomFilterPolicy_default_bits_per_key_def)
  with main show ?thesis by simp
qed

section \<open>Bloom filter: no false negatives\<close>

lemma length_set_bit_at [simp]: "length (set_bit_at p d) = length d"
  by (simp add: set_bit_at_def)

lemma test_bit_at_iff: "test_bit_at p d = bit (d ! unat (p div 8)) (unat (p mod 8))"
  by (simp add: test_bit_at_def bit_iff_and_push_bit_not_eq_0)

lemma test_set_same: "unat (p div 8) < length d \<Longrightarrow> test_bit_at p (set_bit_at p d)"
proof -
  assume a: "unat (p div 8) < length d"
  have "unat (p mod 8) < 8" by (simp add: unat_mod_distrib) 
  then show ?thesis using a by (simp add: test_bit_at_iff set_bit_at_def bit_simps)
qed

lemma test_set_mono: "test_bit_at p d \<Longrightarrow> test_bit_at p (set_bit_at q d)"
  by (cases "unat (q div 8) < length d")
     (auto simp add: test_bit_at_iff set_bit_at_def bit_or_iff nth_list_update list_update_beyond)


lemma fold_set_bits_length [simp]:
  "length (fold (\<lambda>i. set_bit_at (f i)) is d) = length d"
  by (induction "is" arbitrary: d) simp_all

lemma fold_set_bits_mono:
  "test_bit_at p d \<Longrightarrow> test_bit_at p (fold (\<lambda>i. set_bit_at (f i)) is d)"
  by (induction "is" arbitrary: d) (simp_all add: test_set_mono)

lemma fold_set_bits_sets:
  "i \<in> set is \<Longrightarrow> unat (f i div 8) < length d \<Longrightarrow> test_bit_at (f i) (fold (\<lambda>i. set_bit_at (f i)) is d)"
proof (induction "is" arbitrary: d)
  case Nil
  then show ?case by simp
next
  case (Cons a "is")
  show ?case
  proof (cases "i = a")
    case True
    then show ?thesis using Cons.prems by (simp add: fold_set_bits_mono test_set_same)
  next
    case False
    then show ?thesis using Cons by simp
  qed
qed

lemma fold_hashes_length [simp]:
  "length (fold (\<lambda>h data. fold (\<lambda>i. set_bit_at (g h i)) is data) hs d) = length d"
  by (induction hs arbitrary: d) simp_all

lemma fold_hashes_mono:
  "test_bit_at p d \<Longrightarrow> test_bit_at p (fold (\<lambda>h data. fold (\<lambda>i. set_bit_at (g h i)) is data) hs d)"
  by (induction hs arbitrary: d) (simp_all add: fold_set_bits_mono)

lemma fold_hashes_sets:
  "h \<in> set hs \<Longrightarrow> i \<in> set is \<Longrightarrow> unat (g h i div 8) < length d \<Longrightarrow>
   test_bit_at (g h i) (fold (\<lambda>h data. fold (\<lambda>i. set_bit_at (g h i)) is data) hs d)"
proof (induction hs arbitrary: d)
  case Nil
  then show ?case by simp
next
  case (Cons a hs)
  show ?case
  proof (cases "h = a")
    case True
    then show ?thesis using Cons.prems
      by (simp add: fold_hashes_mono fold_set_bits_sets)
  next
    case False
    then show ?thesis using Cons by simp
  qed
qed

lemma mult8_div8: "((x :: 64 word) div 8) * 8 div 8 = x div 8"
proof -
  have "unat (x div 8) < 2 ^ 61" using unsigned_less [of x, where ?'a = nat] by (simp add: unat_div)
  then have "unat ((x div 8) * 8) = unat (x div 8) * 8"
    by (simp add: unat_word_ariths)
  then have "unat ((x div 8) * 8 div 8) = unat (x div 8)" by (simp add: unat_div)
  then show ?thesis by (simp add: word_unat_eq_iff)
qed

lemma Finish_bits_multiple:
  "(let bits = ((b + 7) div 8) * 8; bits = (if bits < 64 then 64 else bits) in bits) = (nb :: 64 word)
   \<Longrightarrow> (nb div 8) * 8 = nb \<and> 64 \<le> nb"
  by (auto simp add: Let_def mult8_div8 not_less split: if_splits)

lemma pos_index_bound:
  assumes "(nb div 8) * 8 = (nb :: 64 word)" "p < nb"
  shows "unat (p div 8) < unat (nb div 8)"
proof -
  have "unat (nb div 8) < 2 ^ 61" using unsigned_less [of nb, where ?'a = nat] by (simp add: unat_div)
  then have "unat ((nb div 8) * 8) = unat (nb div 8) * 8" by (simp add: unat_word_ariths)
  then have "unat nb = unat (nb div 8) * 8" using assms(1) by simp
  moreover have "unat p < unat nb" using assms(2) by (simp add: word_less_nat_alt)
  ultimately show ?thesis by (simp add: unat_div) 
qed


lemma fold_AddKey:
  "bf_hashes (fold (\<lambda>k b. AddKey b k) keys b0) = bf_hashes b0 @ map Hash128 keys
   \<and> bf_num_keys (fold (\<lambda>k b. AddKey b k) keys b0) = bf_num_keys b0 + length keys
   \<and> policy_bits_per_key (fold (\<lambda>k b. AddKey b k) keys b0) = policy_bits_per_key b0"
  by (induction keys arbitrary: b0) (simp_all add: AddKey_def)

lemma test_bit_at_update_other:
  "unat (p div 8) \<noteq> n \<Longrightarrow> test_bit_at p (d[n := v]) = test_bit_at p d"
  by (simp add: test_bit_at_def)

lemma num_hashes_range:
  "1 \<le> nat (OptimalNumHashes bpk) \<and> nat (OptimalNumHashes bpk) \<le> 30"
  using OptimalNumHashes_range [of bpk] by linarith

lemma CreateFilter_length:
  "length (CreateFilter b nb) = unat (nb div 8) + 1"
  by (simp add: CreateFilter_def Let_def)

lemma CreateFilter_last:
  "CreateFilter b nb ! unat (nb div 8) = of_nat (nat (OptimalNumHashes (policy_bits_per_key b)))"
  by (simp add: CreateFilter_def Let_def)

lemma CreateFilter_probe:
  assumes mult: "(nb div 8) * 8 = nb" and nz: "nb \<noteq> 0"
    and h: "h \<in> set (bf_hashes b)" and i: "i < nat (OptimalNumHashes (policy_bits_per_key b))"
  shows "test_bit_at (bit_pos nb h i) (CreateFilter b nb)"
proof -
  have "0 < nb" using nz by (simp add: word_greater_zero_iff)
  then have lt: "bit_pos nb h i < nb" by (simp add: bit_pos_def word_mod_less_divisor)
  have idx: "unat (bit_pos nb h i div 8) < unat (nb div 8)"
    using mult lt by (rule pos_index_bound)
  have "test_bit_at (bit_pos nb h i)
          (fold (\<lambda>h data. fold (\<lambda>i. set_bit_at (bit_pos nb h i))
                  [0..<nat (OptimalNumHashes (policy_bits_per_key b))] data)
             (bf_hashes b) (replicate (unat (nb div 8) + 1) 0))"
    using h i idx by (intro fold_hashes_sets) simp_all
  then show ?thesis using idx
    by (simp add: CreateFilter_def Let_def test_bit_at_update_other)
qed

lemma Init_CreateFilter:
  assumes mult: "(nb div 8) * 8 = nb"
  shows "BloomFilterReader_Init (CreateFilter b nb)
           = Some \<lparr>br_data = CreateFilter b nb, br_num_bits = nb,
                    br_num_hashes = nat (OptimalNumHashes (policy_bits_per_key b))\<rparr>"
proof -
  let ?k = "nat (OptimalNumHashes (policy_bits_per_key b))"
  have k: "1 \<le> ?k \<and> ?k \<le> 30" by (rule num_hashes_range)
  then have uk: "unat (of_nat ?k :: 8 word) = ?k" by (simp add: unat_of_nat)
  have nb: "(of_nat (unat (nb div 8)) :: 64 word) * 8 = nb" using mult by simp
  show ?thesis
    using k uk nb OptimalNumHashes_range [of "policy_bits_per_key b"]
    by (simp add: BloomFilterReader_Init_def CreateFilter_length CreateFilter_last Let_def)
qed

text \<open>
  C5. For every list of keys added with \<^verbatim>\<open>AddKey\<close>, every policy and every key of
  the list: \<^verbatim>\<open>Init\<close> accepts the filter that \<^verbatim>\<open>Finish\<close> returns, and \<^verbatim>\<open>MayContain\<close>
  is true for the key.
\<close>

theorem C5_no_false_negatives:
  assumes "key \<in> set keys"
  shows "\<exists>r. BloomFilterReader_Init
               (BloomFilterBuilder_Finish
                  (fold (\<lambda>k b. AddKey b k) keys (BloomFilterBuilder_new bits_per_key))) = Some r
             \<and> MayContain r key"
proof -
  let ?b = "fold (\<lambda>k b. AddKey b k) keys (BloomFilterBuilder_new bits_per_key)"
  have hs: "bf_hashes ?b = map Hash128 keys" and nk: "bf_num_keys ?b = length keys"
    using fold_AddKey [of keys "BloomFilterBuilder_new bits_per_key"]
    by (simp_all add: BloomFilterBuilder_new_def)
  have ne: "bf_num_keys ?b \<noteq> 0" using assms nk by auto
  obtain nb where fin: "BloomFilterBuilder_Finish ?b = CreateFilter ?b nb"
    and mult: "(nb div 8) * 8 = nb" and big: "64 \<le> nb"
  proof -
    let ?bits = "(of_nat (bf_num_keys ?b) :: 64 word) * of_int (policy_bits_per_key ?b)"
    let ?nb = "(let bits = ((?bits + 7) div 8) * 8; bits = (if bits < 64 then 64 else bits) in bits)"
    have "BloomFilterBuilder_Finish ?b = CreateFilter ?b ?nb"
      using ne by (simp add: BloomFilterBuilder_Finish_def Let_def)
    moreover have "(?nb div 8) * 8 = ?nb \<and> 64 \<le> ?nb"
      by (rule Finish_bits_multiple) simp
    ultimately show ?thesis using that by blast
  qed
  have nz: "nb \<noteq> 0" using big by auto
  let ?r = "\<lparr>br_data = CreateFilter ?b nb, br_num_bits = nb,
             br_num_hashes = nat (OptimalNumHashes (policy_bits_per_key ?b))\<rparr>"
  have init: "BloomFilterReader_Init (BloomFilterBuilder_Finish ?b) = Some ?r"
    unfolding fin using mult by (rule Init_CreateFilter)
  have mem: "Hash128 key \<in> set (bf_hashes ?b)" using assms hs by simp
  have "\<And>i. i < nat (OptimalNumHashes (policy_bits_per_key ?b))
          \<Longrightarrow> test_bit_at (bit_pos nb (Hash128 key) i) (CreateFilter ?b nb)"
    using mult nz mem by (rule CreateFilter_probe)
  then have "MayContain ?r key"
    using nz by (simp add: MayContain_def Let_def list_all_iff)
  with init show ?thesis by blast
qed

theorem C5_no_false_negatives_witness:
  "bytes_of ''k2'' \<in> set [bytes_of ''k1'', bytes_of ''k2'']
   \<and> (\<exists>r. BloomFilterReader_Init
               (BloomFilterBuilder_Finish
                  (fold (\<lambda>k b. AddKey b k) [bytes_of ''k1'', bytes_of ''k2'']
                     (BloomFilterBuilder_new 10))) = Some r
             \<and> MayContain r (bytes_of ''k2''))"
  using C5_no_false_negatives [of "bytes_of ''k2''" "[bytes_of ''k1'', bytes_of ''k2'']" 10]
  by simp

section \<open>Fixed-width encodings decode back\<close>

lemma and_ff: "x AND 0xff = take_bit 8 (x :: 'a :: len word)"
proof -
  have "(0xff :: 'a word) = mask 8" by (simp add: mask_eq_exp_minus_1)
  then show ?thesis by (simp add: take_bit_eq_mask)
qed

lemma DecodeFixed32_EncodeFixed32 [simp]: "DecodeFixed32 (EncodeFixed32 v @ rest) = v"
proof (rule bit_word_eqI)
  fix n assume n: "n < LENGTH(32)"
  consider "n < 8" | "8 \<le> n \<and> n < 16" | "16 \<le> n \<and> n < 24" | "24 \<le> n \<and> n < 32"
    using n by fastforce
  then show "bit (DecodeFixed32 (EncodeFixed32 v @ rest)) n = bit v n"
    by cases (auto simp add: DecodeFixed32_def EncodeFixed32_def and_ff bit_simps)
qed

lemma len16_bytes:
  "(ucast (ucast (len AND 0xff) :: 8 word) OR push_bit 8 (ucast (ucast (drop_bit 8 len AND 0xff) :: 8 word))) = (len :: 16 word)"
proof (rule bit_word_eqI)
  fix n assume n: "n < LENGTH(16)"
  consider "n < 8" | "8 \<le> n \<and> n < 16" 
    using n by fastforce
  then show "bit (ucast (ucast (len AND 0xff) :: 8 word) OR push_bit 8 (ucast (ucast (drop_bit 8 len AND 0xff) :: 8 word)) :: 16 word) n = bit len n"
    by cases (auto simp add: and_ff bit_simps)
qed

lemma DecodeFixed64_EncodeFixed64 [simp]: "DecodeFixed64 (EncodeFixed64 v @ rest) = v"
proof (rule bit_word_eqI)
  fix n assume n: "n < LENGTH(64)"
  have e: "DecodeFixed64 (EncodeFixed64 v @ rest) = 
     ucast (ucast (take_bit 8 v) :: 8 word) OR push_bit 8 (ucast (ucast (take_bit 8 (drop_bit 8 v)) :: 8 word))
     OR push_bit 16 (ucast (ucast (take_bit 8 (drop_bit 16 v)) :: 8 word))
     OR push_bit 24 (ucast (ucast (take_bit 8 (drop_bit 24 v)) :: 8 word))
     OR push_bit 32 (ucast (ucast (take_bit 8 (drop_bit 32 v)) :: 8 word))
     OR push_bit 40 (ucast (ucast (take_bit 8 (drop_bit 40 v)) :: 8 word))
     OR push_bit 48 (ucast (ucast (take_bit 8 (drop_bit 48 v)) :: 8 word))
     OR push_bit 56 (ucast (ucast (take_bit 8 (drop_bit 56 v)) :: 8 word))"
    by (simp add: DecodeFixed64_def EncodeFixed64_def and_ff upt_conv_Cons or.assoc)
  consider "n < 8" | "8 \<le> n \<and> n < 16" | "16 \<le> n \<and> n < 24" | "24 \<le> n \<and> n < 32"
    | "32 \<le> n \<and> n < 40" | "40 \<le> n \<and> n < 48" | "48 \<le> n \<and> n < 56" | "56 \<le> n \<and> n < 64"
    using n by fastforce
  then show "bit (DecodeFixed64 (EncodeFixed64 v @ rest)) n = bit v n"
    unfolding e
    by cases (auto simp add: bit_simps)
qed

section \<open>WAL record framing\<close>






lemma WAL_record_eq:
  "WAL_record payload =
     EncodeFixed32 (WAL_crc (RecordType_kFull # payload) (WAL_len_bytes payload))
       @ WAL_len_bytes payload @ [RecordType_kFull] @ payload"
  by (simp add: WAL_record_def WAL_crc_def WAL_len_bytes_def EncodeFixed32_def Let_def)

lemma length_WAL_len_bytes [simp]: "length (WAL_len_bytes p) = 2"
  by (simp add: WAL_len_bytes_def Let_def)

lemma length_WAL_record [simp]: "length (WAL_record p) = 7 + length p"
  by (simp add: WAL_record_eq)

lemma WAL_len_decode:
  "unat ((ucast (WAL_len_bytes p ! 0) OR push_bit 8 (ucast (WAL_len_bytes p ! 1))) :: 16 word)
     = length p mod 65536"
  by (simp add: WAL_len_bytes_def Let_def len16_bytes unat_of_nat)

lemma ReadRecord_WAL_record:
  fixes payload pre post :: bytes and fd :: int
  defines "data \<equiv> pre @ WAL_record payload @ post"
  defines "L \<equiv> length payload mod 65536"
  defines "r \<equiv> \<lparr>wr_fd = fd, wr_data = Some data, wr_size = length data, wr_pos = length pre\<rparr>"
  shows "ReadRecord r =
           (if WAL_crc (RecordType_kFull # payload) (WAL_len_bytes payload)
                 \<noteq> WAL_crc (RecordType_kFull # take L payload) (WAL_len_bytes payload)
            then (ReadResult_Error (Status_Corruption ''CRC mismatch in WAL record''), r)
            else (ReadResult_OK (take L payload), r\<lparr>wr_pos := length pre + kHeaderSize + L\<rparr>))"
proof -
  let ?lb = "WAL_len_bytes payload"
  let ?crc = "WAL_crc (RecordType_kFull # payload) ?lb"
  have hdr: "drop (length pre) data = EncodeFixed32 ?crc @ ?lb @ [RecordType_kFull] @ payload @ post"
    by (simp add: data_def WAL_record_eq)
  let ?header = "EncodeFixed32 ?crc @ ?lb @ [RecordType_kFull] @ payload @ post"
  have h4: "?header ! 4 = ?lb ! 0" and h5: "?header ! 5 = ?lb ! 1" and h6: "?header ! 6 = RecordType_kFull"
    by (simp_all add: nth_append)
  have len: "unat ((ucast (?header ! 4) OR push_bit 8 (ucast (?header ! 5))) :: 16 word) = L"
    unfolding h4 h5 L_def by (rule WAL_len_decode)
  have Lle: "L \<le> length payload" by (simp add: L_def)
  have d6: "take (1 + L) (drop 6 ?header) = RecordType_kFull # take L payload"
    by (simp add: Lle)
  have d4: "take 2 (drop 4 ?header) = ?lb" by simp
  have d7: "take L (drop kHeaderSize ?header) = take L payload"
    by (simp add: kHeaderSize_def Lle)
  have sz: "\<not> length data \<le> length pre" "\<not> length data < length pre + kHeaderSize"
    "\<not> length data < length pre + kHeaderSize + L"
    using Lle by (simp_all add: data_def kHeaderSize_def)
  show ?thesis
    unfolding ReadRecord_def r_def
    apply (simp only: WALReader.simps option.case hdr Let_def sz if_False len d6 d4 d7 h6
        DecodeFixed32_EncodeFixed32)
    apply (simp add: WAL_crc_def)
    done
qed


lemma ww_file_HandleSync [simp]: "ww_file (snd (HandleSync fs w)) = ww_file w"
  by (simp add: HandleSync_def SyncLocked_def split: SyncPolicy.splits)



text \<open>
  C7. The claim: a \<^verbatim>\<open>write\<close> interrupted with \<^verbatim>\<open>EINTR\<close> is retried. \<^verbatim>\<open>AppendRecord\<close>
  calls \<^verbatim>\<open>write\<close> once and compares its result with the record size: on \<^verbatim>\<open>EINTR\<close>
  it returns \<^verbatim>\<open>IOError\<close> at once. Nothing is written, no \<^verbatim>\<open>fsync\<close> is issued and the
  writer is unchanged.
\<close>

theorem C7_EINTR_is_not_retried:
  "WALWriter_Append encode (WriteFailed EINTR) fsync_ok (w\<lparr>ww_fd := 3\<rparr>) entry
     = (Status_IOError ''Failed to write WAL record'', w\<lparr>ww_fd := 3\<rparr>)"
  by (simp add: WALWriter_Append_def AppendRecord_def Let_def)




section \<open>Memtable lookup\<close>

lemma eless_iff:
  "eless a b \<longleftrightarrow>
     user_key (internal_key a) < user_key (internal_key b)
     \<or> (user_key (internal_key a) = user_key (internal_key b)
        \<and> sequence (internal_key b) < sequence (internal_key a))"
  by (auto simp add: eless_def MemTableKeyComparator_def string_compare_def Let_def)

lemma cmp_zero_iff:
  "MemTableKeyComparator a b = 0 \<longleftrightarrow>
     user_key (internal_key a) = user_key (internal_key b)
     \<and> sequence (internal_key a) = sequence (internal_key b)"
  by (auto simp add: MemTableKeyComparator_def string_compare_def Let_def)

lemma eless_trans: "eless a b \<Longrightarrow> eless b c \<Longrightarrow> eless a c"
  by (auto simp add: eless_iff)

lemma not_eless_iff:
  "\<not> eless a b \<longleftrightarrow>
     user_key (internal_key b) < user_key (internal_key a)
     \<or> (user_key (internal_key a) = user_key (internal_key b)
        \<and> sequence (internal_key a) \<le> sequence (internal_key b))"
  by (auto simp add: eless_iff)

lemma split_point_le: "split_point xs key \<le> length xs"
  by (simp add: split_point_def length_takeWhile_le)

lemma split_point_before: "i < split_point xs key \<Longrightarrow> eless (fst (xs ! i)) key"
proof -
  assume i: "i < split_point xs key"
  then have "takeWhile (\<lambda>n. eless (fst n) key) xs ! i = xs ! i"
    unfolding split_point_def by (rule takeWhile_nth)
  moreover have "takeWhile (\<lambda>n. eless (fst n) key) xs ! i \<in> set (takeWhile (\<lambda>n. eless (fst n) key) xs)"
    using i unfolding split_point_def by (rule nth_mem)
  ultimately show ?thesis by (auto dest: set_takeWhileD)
qed

lemma split_point_at:
  "split_point xs key < length xs \<Longrightarrow> \<not> eless (fst (xs ! split_point xs key)) key"
  unfolding split_point_def by (rule nth_length_takeWhile)

lemma split_point_after:
  assumes s: "sorted_wrt eless (map fst xs)" and i: "i < length xs" and l: "eless (fst (xs ! i)) key"
  shows "i < split_point xs key"
proof (rule ccontr)
  assume "\<not> i < split_point xs key"
  then have pi: "split_point xs key \<le> i" by simp
  then have pl: "split_point xs key < length xs" using i by simp
  then have n: "\<not> eless (fst (xs ! split_point xs key)) key" by (rule split_point_at)
  show False
  proof (cases "split_point xs key = i")
    case True
    then show ?thesis using n l by simp
  next
    case False
    then have "split_point xs key < i" using pi by simp
    then have "eless (map fst xs ! split_point xs key) (map fst xs ! i)"
      using s i by (simp add: sorted_wrt_iff_nth_less)
    then have "eless (fst (xs ! split_point xs key)) (fst (xs ! i))" using i pl by simp
    then show ?thesis using n l eless_trans by blast
  qed
qed

lemma Next_level0:
  assumes "\<forall>n \<in> set xs. 1 \<le> snd n"
  shows "Next xs x 0 = (if x < length xs then Some (x + 1) else None)"
  using assms by (subst Next.simps) (auto simp add: Suc_le_eq)

lemma FGE_loop_correct_aux:
  "cmp = MemTableKeyComparator \<Longrightarrow> sorted_wrt eless (map fst xs) \<Longrightarrow> \<forall>n \<in> set xs. 1 \<le> snd n \<Longrightarrow>
         x \<le> split_point xs key \<Longrightarrow> 0 < length prev \<Longrightarrow>
         FindGreaterOrEqual_loop cmp xs key x level prev = (r, prev') \<Longrightarrow>
         r = (if split_point xs key < length xs then Some (split_point xs key + 1) else None)
         \<and> prev' ! 0 = split_point xs key"
proof (induction cmp xs key x level prev rule: FindGreaterOrEqual_loop.induct)
  case (1 cmp xs key x level prev)
  note cm = \<open>cmp = MemTableKeyComparator\<close>
  let ?p = "split_point xs key"
  show ?case
  proof (cases "case Next xs x level of None \<Rightarrow> False
                | Some nx \<Rightarrow> cmp (fst (xs ! (nx - 1))) key < 0")
    case True
    then obtain nx where nx: "Next xs x level = Some nx"
      and lt: "eless (fst (xs ! (nx - 1))) key"
      using cm by (auto simp add: eless_def split: option.splits)
    have b: "x < nx \<and> nx \<le> length xs" using nx by (rule Next_bounds)
    then have "nx - 1 < ?p" using "1.prems"(2) lt by (intro split_point_after) auto
    then have le: "nx \<le> ?p" by simp
    have "FindGreaterOrEqual_loop cmp xs key nx level prev = (r, prev')"
      using "1.prems"(6) True nx by (subst (asm) FindGreaterOrEqual_loop.simps) (simp add: Let_def)
    then show ?thesis using "1.IH"(1) [OF refl _ cm "1.prems"(2,3)] True nx le "1.prems"(5) by simp
  next
    case False
    note nf = this
    show ?thesis
    proof (cases "level = 0")
      case True
      have res: "r = Next xs x 0 \<and> prev' = prev[0 := x]"
        using "1.prems"(6) nf True
        by (subst (asm) FindGreaterOrEqual_loop.simps) (auto simp add: Let_def)
      have n0: "Next xs x 0 = (if x < length xs then Some (x + 1) else None)"
        using "1.prems"(3) by (rule Next_level0)
      have xp: "x = ?p"
      proof (cases "x < length xs")
        case True
        then have "\<not> eless (fst (xs ! x)) key" using nf \<open>level = 0\<close> n0 cm by (simp add: eless_def)
        then have "\<not> x < ?p" using split_point_before by blast
        then show ?thesis using "1.prems"(4) by simp
      next
        case False
        then show ?thesis using "1.prems"(4) split_point_le [of xs key] by simp
      qed
      show ?thesis using res n0 xp "1.prems"(5) by simp
    next
      case False
      have "FindGreaterOrEqual_loop cmp xs key x (level - 1) (prev[level := x]) = (r, prev')"
        using "1.prems"(6) nf False
        by (subst (asm) FindGreaterOrEqual_loop.simps) (simp add: Let_def)
      then show ?thesis
        using "1.IH"(2) [OF refl nf refl False cm "1.prems"(2,3,4)] "1.prems"(5) by simp
    qed
  qed
qed

lemma FGE_loop_correct:
  assumes "sorted_wrt eless (map fst xs)" "\<forall>n \<in> set xs. 1 \<le> snd n"
    "x \<le> split_point xs key" "0 < length prev"
    "FindGreaterOrEqual_loop MemTableKeyComparator xs key x level prev = (r, prev')"
  shows "r = (if split_point xs key < length xs then Some (split_point xs key + 1) else None)
         \<and> prev' ! 0 = split_point xs key"
  using FGE_loop_correct_aux [OF refl assms] .

lemma RandomHeight_loop_range:
  "1 \<le> h0 \<Longrightarrow> h0 \<le> kMaxHeight \<Longrightarrow>
   1 \<le> fst (RandomHeight_loop rng pos h0) \<and> fst (RandomHeight_loop rng pos h0) \<le> kMaxHeight"
proof (induction rng pos h0 rule: RandomHeight_loop.induct)
  case (1 rng pos height)
  show ?case
  proof (cases "height < kMaxHeight \<and> rng pos mod kBranching = 0")
    case True
    then have "RandomHeight_loop rng pos height = RandomHeight_loop rng (pos + 1) (height + 1)"
      by (subst RandomHeight_loop.simps) simp
    then show ?thesis using "1.IH" True "1.prems" by simp
  next
    case False
    then have "fst (RandomHeight_loop rng pos height) = height"
      by (subst RandomHeight_loop.simps) auto
    then show ?thesis using "1.prems" by simp
  qed
qed

lemma FindGreaterOrEqual_correct:
  assumes "sl_inv l"
  shows "fst (FindGreaterOrEqual MemTableKeyComparator l key)
           = (if split_point (sl_nodes l) key < length (sl_nodes l)
              then Some (split_point (sl_nodes l) key + 1) else None)
         \<and> snd (FindGreaterOrEqual MemTableKeyComparator l key) ! 0 = split_point (sl_nodes l) key"
proof -
  obtain r prev' where e: "FindGreaterOrEqual MemTableKeyComparator l key = (r, prev')"
    by (cases "FindGreaterOrEqual MemTableKeyComparator l key") auto
  have "r = (if split_point (sl_nodes l) key < length (sl_nodes l)
              then Some (split_point (sl_nodes l) key + 1) else None)
         \<and> prev' ! 0 = split_point (sl_nodes l) key"
    using assms e unfolding FindGreaterOrEqual_def sl_inv_def
    by (intro FGE_loop_correct [where x = 0 and prev = "replicate kMaxHeight 0"])
       (auto simp add: kMaxHeight_def)
  then show ?thesis using e by simp
qed

lemma fold_update_nth0:
  "0 < a \<Longrightarrow> fold (\<lambda>i p. p[i := (0::nat)]) [a..<b] prev ! 0 = prev ! 0"
proof (induction b)
  case 0
  then show ?case by simp
next
  case (Suc b)
  then show ?case by (cases "a \<le> b") auto
qed

lemma SkipList_Insert_nodes:
  assumes inv: "sl_inv l"
    and ne: "\<forall>n \<in> set (sl_nodes l). MemTableKeyComparator key (fst n) \<noteq> 0"
  shows "\<exists>l' h. SkipList_Insert MemTableKeyComparator l key = Some l'
          \<and> 1 \<le> h \<and> h \<le> kMaxHeight
          \<and> sl_nodes l'
              = take (split_point (sl_nodes l) key) (sl_nodes l) @ (key, h)
                  # drop (split_point (sl_nodes l) key) (sl_nodes l)
          \<and> 1 \<le> sl_max_height l' \<and> sl_max_height l' \<le> kMaxHeight"
proof -
  note assms = inv
  obtain r prev where e: "FindGreaterOrEqual MemTableKeyComparator l key = (r, prev)"
    by (cases "FindGreaterOrEqual MemTableKeyComparator l key") auto
  then have p0: "prev ! 0 = split_point (sl_nodes l) key"
    using FindGreaterOrEqual_correct [OF assms, of key] by simp
  have r: "r = (if split_point (sl_nodes l) key < length (sl_nodes l)
                then Some (split_point (sl_nodes l) key + 1) else None)"
    using FindGreaterOrEqual_correct [OF assms, of key] e by simp
  have passes: "case r of None \<Rightarrow> True
                | Some n \<Rightarrow> MemTableKeyComparator key (fst (sl_nodes l ! (n - 1))) \<noteq> 0"
  proof (cases "split_point (sl_nodes l) key < length (sl_nodes l)")
    case True
    then have "sl_nodes l ! split_point (sl_nodes l) key \<in> set (sl_nodes l)" by (rule nth_mem)
    then show ?thesis using ne r True by simp
  next
    case False
    then show ?thesis using r by simp
  qed
  obtain h pos where rh: "RandomHeight_loop (sl_rng l) (sl_rng_pos l) 1 = (h, pos)"
    by (cases "RandomHeight_loop (sl_rng l) (sl_rng_pos l) 1") auto
  have hr: "1 \<le> h \<and> h \<le> kMaxHeight"
    using RandomHeight_loop_range [of 1 "sl_rng l" "sl_rng_pos l"] rh by (simp add: kMaxHeight_def)
  have mh: "1 \<le> sl_max_height l \<and> sl_max_height l \<le> kMaxHeight" using assms by (simp add: sl_inv_def)
  have f0: "fold (\<lambda>i p. p[i := 0]) [sl_max_height l..<h] prev ! 0 = prev ! 0"
    using mh by (intro fold_update_nth0) simp
  let ?l1 = "l\<lparr>sl_rng_pos := pos\<rparr>"
  let ?l2 = "if sl_max_height l < h then ?l1\<lparr>sl_max_height := h\<rparr> else ?l1"
  let ?l' = "?l2\<lparr>sl_nodes := take (split_point (sl_nodes l) key) (sl_nodes l) @ (key, h)
                                # drop (split_point (sl_nodes l) key) (sl_nodes l)\<rparr>"
  have ins: "SkipList_Insert MemTableKeyComparator l key = Some ?l'"
    using e rh p0 f0 passes by (simp add: SkipList_Insert_def RandomHeight_def Let_def)
  have "1 \<le> sl_max_height ?l' \<and> sl_max_height ?l' \<le> kMaxHeight" using hr mh by simp
  moreover have "sl_nodes ?l' = take (split_point (sl_nodes l) key) (sl_nodes l) @ (key, h)
                                # drop (split_point (sl_nodes l) key) (sl_nodes l)" by simp
  ultimately show ?thesis using ins hr by blast
qed

lemma SkipList_Insert_duplicate:
  assumes inv: "sl_inv l"
    and dup: "n \<in> set (sl_nodes l)" "MemTableKeyComparator key (fst n) = 0"
  shows "SkipList_Insert MemTableKeyComparator l key = None"
proof -
  let ?xs = "sl_nodes l"
  let ?p = "split_point ?xs key"
  have eq: "user_key (internal_key key) = user_key (internal_key (fst n))"
    "sequence (internal_key key) = sequence (internal_key (fst n))"
    using dup(2) by (simp_all add: cmp_zero_iff)
  obtain i where i: "i < length ?xs" "?xs ! i = n" using dup(1) by (auto simp add: in_set_conv_nth)
  have srt: "sorted_wrt eless (map fst ?xs)" using inv by (simp add: sl_inv_def)
  have ni: "\<not> eless (fst (?xs ! i)) key" using i eq by (simp add: eless_iff)
  then have "\<not> i < ?p" using split_point_before by blast
  then have pi: "?p \<le> i" by simp
  then have pl: "?p < length ?xs" using i by simp
  have at: "\<not> eless (fst (?xs ! ?p)) key" using pl by (rule split_point_at)
  have "?p = i"
  proof (rule ccontr)
    assume "?p \<noteq> i"
    then have "?p < i" using pi by simp
    then have "eless (map fst ?xs ! ?p) (map fst ?xs ! i)"
      using srt i(1) by (simp add: sorted_wrt_iff_nth_less)
    then have "eless (fst (?xs ! ?p)) (fst (?xs ! i))" using i(1) pl by simp
    then have "eless (fst (?xs ! ?p)) (fst n)" using i(2) by simp
    then have "eless (fst (?xs ! ?p)) key" using eq by (simp add: eless_iff)
    then show False using at by simp
  qed
  then have z: "MemTableKeyComparator key (fst (?xs ! ?p)) = 0" using i dup(2) by simp
  obtain r prev where e: "FindGreaterOrEqual MemTableKeyComparator l key = (r, prev)"
    by (cases "FindGreaterOrEqual MemTableKeyComparator l key") auto
  then have "r = Some (?p + 1)" using FindGreaterOrEqual_correct [OF inv, of key] pl by simp
  then show ?thesis using e z by (simp add: SkipList_Insert_def)
qed

lemma sorted_insert_at_split:
  assumes s: "sorted_wrt eless (map fst xs)"
    and ne: "\<forall>n \<in> set xs. MemTableKeyComparator key (fst n) \<noteq> 0"
  shows "sorted_wrt eless (map fst (take (split_point xs key) xs @ (key, h) # drop (split_point xs key) xs))"
proof -
  let ?p = "split_point xs key"
  have before: "\<forall>n \<in> set (take ?p xs). eless (fst n) key"
  proof
    fix n assume "n \<in> set (take ?p xs)"
    then obtain i where "i < ?p" "i < length xs" "n = xs ! i"
      by (auto simp add: in_set_conv_nth)
    then show "eless (fst n) key" using split_point_before by blast
  qed
  have after: "\<forall>n \<in> set (drop ?p xs). eless key (fst n)"
  proof
    fix n assume n: "n \<in> set (drop ?p xs)"
    then obtain i where i: "i < length xs - ?p" "n = xs ! (?p + i)"
      by (auto simp add: in_set_conv_nth)
    have "\<not> eless (fst n) key"
    proof
      assume "eless (fst n) key"
      then have "?p + i < ?p" using s i by (intro split_point_after) auto
      then show False by simp
    qed
    moreover have "MemTableKeyComparator key (fst n) \<noteq> 0" using ne n by (auto dest: in_set_dropD)
    ultimately show "eless key (fst n)"
      by (auto simp add: eless_iff cmp_zero_iff)
  qed
  have both: "\<forall>a \<in> set (take ?p xs). \<forall>b \<in> set (drop ?p xs). eless (fst a) (fst b)"
    using before after eless_trans by blast
  have st: "sorted_wrt eless (map fst (take ?p xs))" "sorted_wrt eless (map fst (drop ?p xs))"
    using s by (simp_all add: sorted_wrt_take sorted_wrt_drop flip: take_map drop_map)
  show ?thesis using st before after both by (simp add: sorted_wrt_append)
qed

lemma SkipList_Insert_inv:
  assumes inv: "sl_inv l"
    and ne: "\<forall>n \<in> set (sl_nodes l). MemTableKeyComparator key (fst n) \<noteq> 0"
  shows "\<exists>l'. SkipList_Insert MemTableKeyComparator l key = Some l'
         \<and> sl_inv l'
         \<and> set (map fst (sl_nodes l')) = insert key (set (map fst (sl_nodes l)))
         \<and> length (sl_nodes l') = length (sl_nodes l) + 1"
proof -
  let ?p = "split_point (sl_nodes l) key"
  obtain l' h where ins: "SkipList_Insert MemTableKeyComparator l key = Some l'"
    and h: "1 \<le> h" "h \<le> kMaxHeight"
    and nodes: "sl_nodes l' = take ?p (sl_nodes l) @ (key, h) # drop ?p (sl_nodes l)"
    and mh: "1 \<le> sl_max_height l'" "sl_max_height l' \<le> kMaxHeight"
    using SkipList_Insert_nodes [OF inv ne] by blast
  have len: "length (sl_nodes l') = length (sl_nodes l) + 1"
    unfolding nodes using split_point_le [of "sl_nodes l" key] by simp
  have s: "sorted_wrt eless (map fst (sl_nodes l))" and hs: "\<forall>n \<in> set (sl_nodes l). 1 \<le> snd n"
    using inv by (simp_all add: sl_inv_def)
  have "sorted_wrt eless (map fst (take ?p (sl_nodes l) @ (key, h) # drop ?p (sl_nodes l)))"
    using s ne by (rule sorted_insert_at_split)
  moreover have "\<forall>n \<in> set (take ?p (sl_nodes l) @ (key, h) # drop ?p (sl_nodes l)). 1 \<le> snd n"
    using hs h by (auto dest: in_set_takeD in_set_dropD)
  ultimately have i': "sl_inv l'" using mh nodes by (simp add: sl_inv_def)
  have "set (map fst (take ?p (sl_nodes l) @ (key, h) # drop ?p (sl_nodes l)))
                  = insert key (set (map fst (sl_nodes l)))"
  proof -
    have "set (take ?p (sl_nodes l)) \<union> set (drop ?p (sl_nodes l)) = set (sl_nodes l)"
      by (metis append_take_drop_id set_append)
    then show ?thesis by auto
  qed
  then have st: "set (map fst (sl_nodes l')) = insert key (set (map fst (sl_nodes l)))"
    by (simp only: nodes)
  show ?thesis using ins i' st len by blast
qed

lemma eseq_op_entry [simp]: "eseq (op_entry op) = op_sequence op"
  by (cases op) (simp_all add: eseq_def)

lemma cmp_zero_ekey: "MemTableKeyComparator a b = 0 \<longleftrightarrow> ekey a = ekey b"
  by (simp add: cmp_zero_iff ekey_def)

lemma ekey_eseq: "ekey a = ekey b \<Longrightarrow> eseq a = eseq b"
  by (simp add: ekey_def eseq_def)

lemma inj_on_eseq_ekey: "inj_on eseq A \<Longrightarrow> inj_on ekey A"
  by (auto simp add: inj_on_def dest: ekey_eseq)

lemma eseq_fresh_ekey: "eseq e \<notin> eseq ` A \<Longrightarrow> ekey e \<notin> ekey ` A"
  by (auto dest: ekey_eseq)

lemma MemTable_apply_table:
  "MemTable_apply m op =
     (case SkipList_Insert MemTableKeyComparator (mt_table m) (op_entry op) of
        None \<Rightarrow> None
      | Some table \<Rightarrow>
          Some (m\<lparr>mt_table := table,
                  mt_approximate_memory_usage :=
                    mt_approximate_memory_usage m
                      + (length (user_key (internal_key (op_entry op)))
                         + length (entry_value (op_entry op)) + 8 + 1 + sizeof_MemTableEntry),
                  mt_entry_count := mt_entry_count m + 1,
                  mt_min_sequence :=
                    (if op_sequence op < mt_min_sequence m then op_sequence op
                     else mt_min_sequence m),
                  mt_max_sequence :=
                    (if mt_max_sequence m < op_sequence op then op_sequence op
                     else mt_max_sequence m)\<rparr>))"
  by (cases op)
     (simp_all add: MemTable_Put_def MemTable_Delete_def MemTable_Add_def Let_def
        split: option.splits)

lemma MemTable_apply_inv:
  assumes inv: "sl_inv (mt_table m)" and fresh: "ekey (op_entry op) \<notin> ekey ` set (mt_entries m)"
  shows "\<exists>m'. MemTable_apply m op = Some m'
         \<and> sl_inv (mt_table m')
         \<and> set (mt_entries m') = insert (op_entry op) (set (mt_entries m))
         \<and> length (mt_entries m') = length (mt_entries m) + 1
         \<and> mt_max_size m' = mt_max_size m"
proof -
  have "\<forall>n \<in> set (sl_nodes (mt_table m)). MemTableKeyComparator (op_entry op) (fst n) \<noteq> 0"
  proof
    fix n assume n: "n \<in> set (sl_nodes (mt_table m))"
    then have "fst n \<in> set (mt_entries m)" by (simp add: mt_entries_def)
    then have "ekey (fst n) \<in> ekey ` set (mt_entries m)" by (rule imageI)
    then have "ekey (fst n) \<noteq> ekey (op_entry op)" using fresh by metis
    then show "MemTableKeyComparator (op_entry op) (fst n) \<noteq> 0"
      by (auto simp add: cmp_zero_ekey)
  qed
  with inv obtain l' where l': "SkipList_Insert MemTableKeyComparator (mt_table m) (op_entry op) = Some l'"
    "sl_inv l'" "set (map fst (sl_nodes l')) = insert (op_entry op) (set (map fst (sl_nodes (mt_table m))))"
    "length (sl_nodes l') = length (sl_nodes (mt_table m)) + 1"
    using SkipList_Insert_inv by blast
  show ?thesis
    unfolding MemTable_apply_table l'(1) using l'(2,3,4) by (simp add: mt_entries_def)
qed

lemma MemTable_apply_duplicate:
  assumes inv: "sl_inv (mt_table m)" and dup: "ekey (op_entry op) \<in> ekey ` set (mt_entries m)"
  shows "MemTable_apply m op = None"
proof -
  from dup obtain n where n: "n \<in> set (sl_nodes (mt_table m))" "ekey (op_entry op) = ekey (fst n)"
    by (auto simp add: mt_entries_def)
  then have "MemTableKeyComparator (op_entry op) (fst n) = 0" by (simp add: cmp_zero_ekey)
  then have "SkipList_Insert MemTableKeyComparator (mt_table m) (op_entry op) = None"
    using inv n(1) by (intro SkipList_Insert_duplicate)
  then show ?thesis by (simp add: MemTable_apply_table)
qed

lemma apply_all_inv:
  "sl_inv (mt_table m) \<Longrightarrow> distinct (map (\<lambda>op. ekey (op_entry op)) ops) \<Longrightarrow>
   (\<lambda>op. ekey (op_entry op)) ` set ops \<inter> ekey ` set (mt_entries m) = {} \<Longrightarrow>
   \<exists>m'. MemTable_apply_all m ops = Some m'
     \<and> sl_inv (mt_table m')
     \<and> set (mt_entries m') = set (mt_entries m) \<union> op_entry ` set ops
     \<and> length (mt_entries m') = length (mt_entries m) + length ops"
proof (induction ops arbitrary: m)
  case Nil
  then show ?case by simp
next
  case (Cons op ops)
  have fresh: "ekey (op_entry op) \<notin> ekey ` set (mt_entries m)" using Cons.prems(3) by auto
  obtain m1 where m1: "MemTable_apply m op = Some m1" "sl_inv (mt_table m1)"
    "set (mt_entries m1) = insert (op_entry op) (set (mt_entries m))"
    "length (mt_entries m1) = length (mt_entries m) + 1"
    using MemTable_apply_inv [OF Cons.prems(1) fresh] by blast
  have d: "distinct (map (\<lambda>op. ekey (op_entry op)) ops)" using Cons.prems(2) by simp
  have "ekey ` set (mt_entries m1) = insert (ekey (op_entry op)) (ekey ` set (mt_entries m))"
    using m1(3) by simp
  then have disj: "(\<lambda>op. ekey (op_entry op)) ` set ops \<inter> ekey ` set (mt_entries m1) = {}"
    using Cons.prems(2,3) by auto
  obtain m' where m': "MemTable_apply_all m1 ops = Some m'" "sl_inv (mt_table m')"
    "set (mt_entries m') = set (mt_entries m1) \<union> op_entry ` set ops"
    "length (mt_entries m') = length (mt_entries m1) + length ops"
    using Cons.IH [OF m1(2) d disj] by blast
  show ?case using m1 m' by auto
qed

lemma MemTable_new_inv: "sl_inv (mt_table (MemTable_new sz rng)) \<and> mt_entries (MemTable_new sz rng) = []"
  by (simp add: MemTable_new_def SkipList_new_def sl_inv_def mt_entries_def kMaxHeight_def)

lemma newest_visible_None: "newest_visible es k s = None \<longleftrightarrow> (\<forall>e \<in> set es. \<not> visible k s e)"
  by (induction es) (auto simp add: visible_def eseq_def split: option.splits)

lemma newest_visible_Some:
  "newest_visible es k s = Some e \<Longrightarrow>
     e \<in> set es \<and> visible k s e \<and> (\<forall>e' \<in> set es. visible k s e' \<longrightarrow> eseq e' \<le> eseq e)"
proof (induction es arbitrary: e)
  case Nil
  then show ?case by simp
next
  case (Cons a es)
  show ?case
  proof (cases "visible k s a")
    case True
    show ?thesis
    proof (cases "newest_visible es k s")
      case None
      then have "e = a" using Cons.prems True by (simp add: visible_def eseq_def)
      moreover have "\<forall>e \<in> set es. \<not> visible k s e" using None by (simp add: newest_visible_None)
      ultimately show ?thesis using True by auto
    next
      case (Some b)
      note ih = Cons.IH [OF Some]
      show ?thesis
      proof (cases "eseq b < eseq a")
        case True
        then have "e = a" using Cons.prems \<open>visible k s a\<close> Some by (simp add: visible_def eseq_def)
        then show ?thesis using ih True \<open>visible k s a\<close> by fastforce
      next
        case False
        then have "e = b" using Cons.prems \<open>visible k s a\<close> Some by (simp add: visible_def eseq_def)
        then show ?thesis using ih False by auto
      qed
    qed
  next
    case False
    then have "newest_visible es k s = Some e" using Cons.prems by (auto simp add: visible_def eseq_def)
    then show ?thesis using Cons.IH False by auto
  qed
qed

lemma newest_visible_eq:
  assumes inj: "inj_on ekey (set es)" and e: "e \<in> set es" "visible k s e"
    and mx: "\<forall>e' \<in> set es. visible k s e' \<longrightarrow> eseq e' \<le> eseq e"
  shows "newest_visible es k s = Some e"
proof (cases "newest_visible es k s")
  case None
  then show ?thesis using e by (simp add: newest_visible_None)
next
  case (Some b)
  then have b: "b \<in> set es" "visible k s b" "\<forall>e' \<in> set es. visible k s e' \<longrightarrow> eseq e' \<le> eseq b"
    using newest_visible_Some by blast+
  then have "eseq b = eseq e" using e mx by (meson order_antisym)
  then have "ekey b = ekey e" using b(2) e(2) by (simp add: ekey_def eseq_def visible_def)
  then have "b = e" using inj_onD [OF inj _ b(1) e(1)] by simp
  with Some show ?thesis by simp
qed

lemma newest_visible_cong:
  assumes "set es = set es'" "inj_on ekey (set es)"
  shows "newest_visible es k s = newest_visible es' k s"
proof (cases "newest_visible es k s")
  case None
  then have "newest_visible es' k s = None" using assms(1) by (simp add: newest_visible_None)
  with None show ?thesis by simp
next
  case (Some e)
  then have "e \<in> set es' \<and> visible k s e \<and> (\<forall>e' \<in> set es'. visible k s e' \<longrightarrow> eseq e' \<le> eseq e)"
    using newest_visible_Some [OF Some] assms(1) by simp
  then have "newest_visible es' k s = Some e"
    using assms by (intro newest_visible_eq) auto
  with Some show ?thesis by simp
qed

lemma MemTable_Get_lookup_spec:
  assumes inv: "sl_inv (mt_table m)" and inj: "inj_on ekey (set (mt_entries m))"
  shows "MemTable_Get m k s = lookup_spec (mt_entries m) k s"
proof -
  let ?xs = "sl_nodes (mt_table m)"
  let ?probe = "\<lparr>internal_key = \<lparr>user_key = k, sequence = s, vtype = kValue\<rparr>, entry_value = []\<rparr>"
  let ?p = "split_point ?xs ?probe"
  have srt: "sorted_wrt eless (map fst ?xs)" using inv by (simp add: sl_inv_def)
  have fge: "fst (FindGreaterOrEqual MemTableKeyComparator (mt_table m) ?probe)
               = (if ?p < length ?xs then Some (?p + 1) else None)"
    using FindGreaterOrEqual_correct [OF inv] by simp
  have below: "\<not> visible k s (fst (?xs ! j))" if "j < ?p" for j
  proof -
    have "eless (fst (?xs ! j)) ?probe" using that by (rule split_point_before)
    then show ?thesis by (auto simp add: eless_iff visible_def eseq_def)
  qed
  have idx: "\<exists>j < length ?xs. e = fst (?xs ! j)" if "e \<in> set (mt_entries m)" for e
  proof -
    from that obtain j where "j < length (map fst ?xs)" "map fst ?xs ! j = e"
      unfolding mt_entries_def in_set_conv_nth by blast
    then show ?thesis by (intro exI [of _ j]) simp
  qed
  show ?thesis
  proof (cases "?p < length ?xs")
    case False
    then have pl: "?p = length ?xs" using split_point_le [of ?xs ?probe] by simp
    have "\<forall>e \<in> set (mt_entries m). \<not> visible k s e"
    proof
      fix e assume "e \<in> set (mt_entries m)"
      then obtain j where "j < length ?xs" "e = fst (?xs ! j)" using idx by blast
      then show "\<not> visible k s e" using below pl by simp
    qed
    then have "newest_visible (mt_entries m) k s = None" by (simp add: newest_visible_None)
    then show ?thesis using fge False by (simp add: MemTable_Get_def lookup_spec_def Let_def)
  next
    case True
    let ?e = "fst (?xs ! ?p)"
    have nl: "\<not> eless ?e ?probe" using True by (rule split_point_at)
    have mem: "?e \<in> set (mt_entries m)" using True by (simp add: mt_entries_def)
    have get: "MemTable_Get m k s =
                 (if user_key (internal_key ?e) = k
                  then (if vtype (internal_key ?e) = kDeletion then LookupResult_Deleted
                        else LookupResult_Found (entry_value ?e))
                  else LookupResult_NotFound)"
      using fge True by (simp add: MemTable_Get_def Let_def)
    have above: "eless ?e (fst (?xs ! j))" if "?p < j" "j < length ?xs" for j
    proof -
      have "eless (map fst ?xs ! ?p) (map fst ?xs ! j)"
        using srt that by (simp add: sorted_wrt_iff_nth_less)
      then show ?thesis using that by simp
    qed
    show ?thesis
    proof (cases "user_key (internal_key ?e) = k")
      case True
      then have vis: "visible k s ?e" using nl by (auto simp add: eless_iff visible_def eseq_def)
      have "\<forall>e' \<in> set (mt_entries m). visible k s e' \<longrightarrow> eseq e' \<le> eseq ?e"
      proof (intro ballI impI)
        fix e' assume e': "e' \<in> set (mt_entries m)" and v: "visible k s e'"
        obtain j where j: "j < length ?xs" "e' = fst (?xs ! j)" using idx e' by blast
        have "\<not> j < ?p" using below v j by blast
        then consider "j = ?p" | "?p < j" by linarith
        then show "eseq e' \<le> eseq ?e"
        proof cases
          case 1
          then show ?thesis using j by simp
        next
          case 2
          then have "eless ?e e'" using above j by simp
          then show ?thesis using v True by (auto simp add: eless_iff visible_def eseq_def)
        qed
      qed
      then have "newest_visible (mt_entries m) k s = Some ?e"
        using inj mem vis by (intro newest_visible_eq) auto
      then show ?thesis using get True by (simp add: lookup_spec_def)
    next
      case False
      then have gt: "k < user_key (internal_key ?e)" using nl by (auto simp add: eless_iff)
      have "\<forall>e \<in> set (mt_entries m). \<not> visible k s e"
      proof
        fix e' assume e': "e' \<in> set (mt_entries m)"
        obtain j where j: "j < length ?xs" "e' = fst (?xs ! j)" using idx e' by blast
        show "\<not> visible k s e'"
        proof
          assume v: "visible k s e'"
          have "\<not> j < ?p" using below v j by blast
          then consider "j = ?p" | "?p < j" by linarith
          then show False
          proof cases
            case 1
            then show ?thesis using j v False by (simp add: visible_def)
          next
            case 2
            then have "eless ?e e'" using above j by simp
            then show ?thesis using v gt by (auto simp add: eless_iff visible_def)
          qed
        qed
      qed
      then have "newest_visible (mt_entries m) k s = None" by (simp add: newest_visible_None)
      then show ?thesis using get False by (simp add: lookup_spec_def)
    qed
  qed
qed

lemma inj_on_eseq_ops:
  "distinct (map op_sequence ops) \<Longrightarrow> inj_on eseq (op_entry ` set ops)"
proof -
  assume d: "distinct (map op_sequence ops)"
  have "inj_on op_sequence (set ops)" using d by (simp add: distinct_map)
  then show ?thesis
    by (auto simp add: inj_on_def)
qed

lemma inj_on_ekey_ops:
  "distinct (map (\<lambda>op. ekey (op_entry op)) ops) \<Longrightarrow> inj_on ekey (op_entry ` set ops)"
proof -
  assume d: "distinct (map (\<lambda>op. ekey (op_entry op)) ops)"
  have "inj_on (\<lambda>op. ekey (op_entry op)) (set ops)" using d by (simp add: distinct_map)
  then show ?thesis
    by (auto simp add: inj_on_def)
qed

lemma distinct_sequence_ekey:
  assumes d: "distinct (map op_sequence ops)"
  shows "distinct (map (\<lambda>op. ekey (op_entry op)) ops)"
proof -
  have i: "inj_on op_sequence (set ops)" and o: "distinct ops" using d by (simp_all add: distinct_map)
  have "inj_on (\<lambda>op. ekey (op_entry op)) (set ops)"
  proof (rule inj_onI)
    fix a b assume a: "a \<in> set ops" and b: "b \<in> set ops"
      and e: "ekey (op_entry a) = ekey (op_entry b)"
    have "eseq (op_entry a) = eseq (op_entry b)" using e by (rule ekey_eseq)
    then have "op_sequence a = op_sequence b" by simp
    then show "a = b" using i a b by (simp add: inj_on_def)
  qed
  then show ?thesis using o by (simp add: distinct_map)
qed

lemma MemTable_built_Get:
  assumes d: "distinct (map (\<lambda>op. ekey (op_entry op)) ops)"
  shows "\<exists>M. MemTable_apply_all (MemTable_new max_size rng) ops = Some M
           \<and> (\<forall>k s. MemTable_Get M k s = lookup_spec (map op_entry ops) k s)
           \<and> set (mt_entries M) = set (map op_entry ops)
           \<and> length (mt_entries M) = length ops"
proof -
  obtain M where M: "MemTable_apply_all (MemTable_new max_size rng) ops = Some M"
    and inv: "sl_inv (mt_table M)"
    and st0: "set (mt_entries M) = set (mt_entries (MemTable_new max_size rng)) \<union> op_entry ` set ops"
    and len0: "length (mt_entries M) = length (mt_entries (MemTable_new max_size rng)) + length ops"
    using apply_all_inv [of "MemTable_new max_size rng" ops] d by (auto simp add: MemTable_new_inv)
  have st: "set (mt_entries M) = set (map op_entry ops)" and len: "length (mt_entries M) = length ops"
    using st0 len0 by (simp_all add: MemTable_new_inv)
  have inj: "inj_on ekey (set (mt_entries M))" unfolding st using inj_on_ekey_ops [OF d] by simp
  have get: "MemTable_Get M k s = lookup_spec (map op_entry ops) k s" for k s
  proof -
    have "newest_visible (mt_entries M) k s = newest_visible (map op_entry ops) k s"
      using st inj by (rule newest_visible_cong)
    then show ?thesis using MemTable_Get_lookup_spec [OF inv inj, of k s] by (simp add: lookup_spec_def)
  qed
  show ?thesis using M get st len by blast
qed

text \<open>
  C1. For every list of puts and deletes with pairwise distinct sequence numbers
  (whatever heights the skip list draws), the calls build a memtable \<open>M\<close> from the empty
  one without failing an assertion, and for every key \<open>k\<close> and every snapshot \<open>S\<close>: if
  \<open>e\<close> is the entry for \<open>k\<close> with the largest sequence at most \<open>S\<close>, \<^verbatim>\<open>Get(k, S)\<close> is
  \<^verbatim>\<open>Deleted()\<close> when \<open>e\<close> is a tombstone and \<^verbatim>\<open>Found\<close> of its value otherwise; if no
  entry for \<open>k\<close> has a sequence at most \<open>S\<close>, it is \<^verbatim>\<open>NotFound()\<close>.
\<close>

theorem C1_memtable_get_newest_visible:
  fixes ops :: "MemTableOp list" and max_size :: nat and rng :: "nat \<Rightarrow> nat"
    and k :: bytes and S :: "64 word"
  assumes d: "distinct (map op_sequence ops)"
  defines "visible_in \<equiv> \<lambda>e. e \<in> op_entry ` set ops \<and> user_key (internal_key e) = k
                              \<and> sequence (internal_key e) \<le> S"
  shows "\<exists>M. MemTable_apply_all (MemTable_new max_size rng) ops = Some M
       \<and> (\<forall>e. visible_in e \<and> (\<forall>e'. visible_in e' \<longrightarrow> sequence (internal_key e') \<le> sequence (internal_key e))
             \<longrightarrow> MemTable_Get M k S =
                   (if vtype (internal_key e) = kDeletion then LookupResult_Deleted
                    else LookupResult_Found (entry_value e)))
       \<and> ((\<forall>e. \<not> visible_in e) \<longrightarrow> MemTable_Get M k S = LookupResult_NotFound)"
proof -
  obtain M where M: "MemTable_apply_all (MemTable_new max_size rng) ops = Some M"
    and get: "MemTable_Get M k S = lookup_spec (map op_entry ops) k S"
    using MemTable_built_Get [OF distinct_sequence_ekey [OF d], of max_size rng] by blast
  have inj: "inj_on ekey (set (map op_entry ops))"
    using inj_on_ekey_ops [OF distinct_sequence_ekey [OF d]] by simp
  have vis: "visible_in e \<longleftrightarrow> e \<in> set (map op_entry ops) \<and> visible k S e" for e
    by (auto simp add: visible_in_def visible_def eseq_def)
  have a: "MemTable_Get M k S =
                   (if vtype (internal_key e) = kDeletion then LookupResult_Deleted
                    else LookupResult_Found (entry_value e))"
    if "visible_in e" "\<forall>e'. visible_in e' \<longrightarrow> sequence (internal_key e') \<le> sequence (internal_key e)" for e
  proof -
    have "newest_visible (map op_entry ops) k S = Some e"
      using inj that vis by (intro newest_visible_eq) (auto simp add: eseq_def)
    then show ?thesis using get by (simp add: lookup_spec_def)
  qed
  have b: "MemTable_Get M k S = LookupResult_NotFound" if "\<forall>e. \<not> visible_in e"
  proof -
    have "newest_visible (map op_entry ops) k S = None"
      using that vis by (simp add: newest_visible_None)
    then show ?thesis using get by (simp add: lookup_spec_def)
  qed
  show ?thesis using M a b by blast
qed

theorem C1_memtable_get_newest_visible_witness:
  "distinct (map op_sequence
      [Put 1 (bytes_of ''k'') (bytes_of ''a''), Put 5 (bytes_of ''k'') (bytes_of ''b''),
       Delete 7 (bytes_of ''k'')])
   \<and> (\<exists>M. MemTable_apply_all (MemTable_new 4194304 (\<lambda>n. n))
             [Put 1 (bytes_of ''k'') (bytes_of ''a''), Put 5 (bytes_of ''k'') (bytes_of ''b''),
              Delete 7 (bytes_of ''k'')] = Some M
        \<and> MemTable_Get M (bytes_of ''k'') 6 = LookupResult_Found (bytes_of ''b'')
        \<and> MemTable_Get M (bytes_of ''k'') 0 = LookupResult_NotFound)"
proof -
  let ?ops = "[Put 1 (bytes_of ''k'') (bytes_of ''a''), Put 5 (bytes_of ''k'') (bytes_of ''b''),
       Delete 7 (bytes_of ''k'')]"
  let ?M = "the (MemTable_apply_all (MemTable_new 4194304 (\<lambda>n. n)) ?ops)"
  have d: "distinct (map op_sequence ?ops)" by simp
  have found: "MemTable_apply_all (MemTable_new 4194304 (\<lambda>n. n)) ?ops = Some ?M
        \<and> MemTable_Get ?M (bytes_of ''k'') 6 = LookupResult_Found (bytes_of ''b'')"
  proof -
    obtain M where M: "MemTable_apply_all (MemTable_new 4194304 (\<lambda>n. n)) ?ops = Some M"
      and g: "\<forall>e. (e \<in> op_entry ` set ?ops \<and> user_key (internal_key e) = bytes_of ''k''
                     \<and> sequence (internal_key e) \<le> 6)
                 \<and> (\<forall>e'. e' \<in> op_entry ` set ?ops \<and> user_key (internal_key e') = bytes_of ''k''
                           \<and> sequence (internal_key e') \<le> 6
                       \<longrightarrow> sequence (internal_key e') \<le> sequence (internal_key e))
             \<longrightarrow> MemTable_Get M (bytes_of ''k'') 6 =
                   (if vtype (internal_key e) = kDeletion then LookupResult_Deleted
                    else LookupResult_Found (entry_value e))"
      using C1_memtable_get_newest_visible [where ops = ?ops and max_size = 4194304
          and rng = "\<lambda>n. n" and k = "bytes_of ''k''" and S = 6, OF d]
      by blast
    have "MemTable_Get M (bytes_of ''k'') 6 = LookupResult_Found (bytes_of ''b'')"
      using g [THEN spec, of "op_entry (Put 5 (bytes_of ''k'') (bytes_of ''b''))"] by auto
    then show ?thesis using M by simp
  qed
  have none: "MemTable_Get ?M (bytes_of ''k'') 0 = LookupResult_NotFound"
  proof -
    obtain M where M: "MemTable_apply_all (MemTable_new 4194304 (\<lambda>n. n)) ?ops = Some M"
      and g: "(\<forall>e. \<not> (e \<in> op_entry ` set ?ops \<and> user_key (internal_key e) = bytes_of ''k''
                     \<and> sequence (internal_key e) \<le> 0))
             \<longrightarrow> MemTable_Get M (bytes_of ''k'') 0 = LookupResult_NotFound"
      using C1_memtable_get_newest_visible [where ops = ?ops and max_size = 4194304
          and rng = "\<lambda>n. n" and k = "bytes_of ''k''" and S = 0, OF d]
      by blast
    have "MemTable_Get M (bytes_of ''k'') 0 = LookupResult_NotFound" using g by auto
    then show ?thesis using M by simp
  qed
  show ?thesis using d found none by blast
qed

section \<open>Memtable manager: sequence numbers\<close>

lemma eseq_mop_entry [simp]: "eseq (mop_entry op seq) = seq"
  by (cases op) (simp_all add: eseq_def)

lemma Ref_entries [simp]: "mt_entries (Ref m) = mt_entries m" "mt_table (Ref m) = mt_table m"
  by (simp_all add: Ref_def mt_entries_def)

lemma Write_ok: "Write mgr type key val = Some r \<Longrightarrow> fst r = Status_OK"
  by (auto simp add: Write_def RotateLocked_def Let_def ok_def Status_OK_def
      split: prod.splits option.splits if_splits)

lemma Manager_status_ok: "Manager_status mgr op = Some s \<Longrightarrow> s = Status_OK"
  by (cases op) (auto simp add: MemTableManager_Put_def MemTableManager_Delete_def dest: Write_ok)

lemma mgr_inv_new: "mgr_inv (MemTableManager_new max_size rngs) 0"
  using MemTable_new_inv [of max_size "rngs 0"]
  by (simp add: mgr_inv_def MemTableManager_new_def mgr_chain_def stored_entries_def)

lemma Manager_apply_eq:
  "Manager_apply mgr op =
     (let mgr1 = maybe_rotate mgr; seq = mm_current_sequence mgr1
      in case MemTable_apply (mm_active mgr1)
                (case op of MPut k v \<Rightarrow> Put seq k v | MDelete k \<Rightarrow> Delete seq k) of
           None \<Rightarrow> None
         | Some active \<Rightarrow>
             Some (mgr1\<lparr>mm_current_sequence := seq + 1,
                     mm_active := active,
                     mm_total_memory_usage := mm_total_memory_usage mgr1
                       + (case op of MPut k v \<Rightarrow> length k + length v + 32
                          | MDelete k \<Rightarrow> length k + 32)\<rparr>))"
  by (cases op)
     (simp_all add: MemTableManager_Put_def MemTableManager_Delete_def Write_def maybe_rotate_def
        RotateLocked_def Let_def ok_def Status_OK_def split: option.splits)

lemma op_entry_case [simp]:
  "op_entry (case op of MPut k v \<Rightarrow> Put seq k v | MDelete k \<Rightarrow> Delete seq k) = mop_entry op seq"
  "op_sequence (case op of MPut k v \<Rightarrow> Put seq k v | MDelete k \<Rightarrow> Delete seq k) = seq"
  by (cases op; simp)+

lemma older_empty [simp]: "mt_entries b = [] \<Longrightarrow> older a b"
  by (simp add: older_def)

lemma maybe_rotate_inv:
  assumes "mgr_inv mgr n"
  shows "mgr_inv (maybe_rotate mgr) n \<and> stored_entries (maybe_rotate mgr) = stored_entries mgr"
proof (cases "ShouldFlush (mm_active mgr)")
  case False
  then show ?thesis using assms by (simp add: maybe_rotate_def)
next
  case True
  let ?new = "Ref (MemTable_new (mm_max_size mgr) (mm_rngs mgr (mm_tables_created mgr)))"
  have ch: "mgr_chain (maybe_rotate mgr) = mgr_chain mgr @ [?new]"
    using True by (simp add: maybe_rotate_def RotateLocked_def mgr_chain_def)
  have ne: "mt_entries ?new = []" "sl_inv (mt_table ?new)" by (simp_all add: MemTable_new_inv)
  have st: "stored_entries (maybe_rotate mgr) = stored_entries mgr"
    using True ne by (simp add: maybe_rotate_def RotateLocked_def stored_entries_def)
  have cs: "mm_current_sequence (maybe_rotate mgr) = mm_current_sequence mgr"
    using True by (simp add: maybe_rotate_def RotateLocked_def)
  show ?thesis
    using assms ne unfolding mgr_inv_def ch st cs
    by (auto simp add: sorted_wrt_append)
qed

lemma of_nat_less_64: "i < n \<Longrightarrow> n < 2 ^ 64 \<Longrightarrow> (of_nat i :: 64 word) < of_nat n"
  by (simp add: word_less_nat_alt unat_of_nat)


lemma stored_entries_chain: "stored_entries mgr = concat (map mt_entries (mgr_chain mgr))"
  by (simp add: stored_entries_def mgr_chain_def)

lemma Manager_apply_inv:
  assumes inv: "mgr_inv mgr n" and n: "n < 2 ^ 64"
  shows "\<exists>mgr'. Manager_apply mgr op = Some mgr'
         \<and> mgr_inv mgr' (Suc n)
         \<and> set (stored_entries mgr')
             = insert (mop_entry op (of_nat n)) (set (stored_entries mgr))"
proof -
  let ?m1 = "maybe_rotate mgr"
  have inv1: "mgr_inv ?m1 n" and st1: "stored_entries ?m1 = stored_entries mgr"
    using maybe_rotate_inv [OF inv] by simp_all
  let ?op = "case op of MPut k v \<Rightarrow> Put (of_nat n) k v | MDelete k \<Rightarrow> Delete (of_nat n) k"
  let ?a = "mm_active ?m1"
  have seq: "mm_current_sequence ?m1 = of_nat n" using inv1 by (simp add: mgr_inv_def)
  have ch1: "mgr_chain ?m1 = mm_immutables ?m1 @ [?a]" by (simp add: mgr_chain_def)
  have all_lt: "\<forall>e \<in> set (stored_entries ?m1). eseq e < of_nat n"
  proof
    fix e assume "e \<in> set (stored_entries ?m1)"
    then have "eseq e \<in> of_nat ` {..<n}" using inv1 by (auto simp add: mgr_inv_def)
    then show "eseq e < of_nat n" using n by (auto simp add: of_nat_less_64)
  qed
  have sub_a: "set (mt_entries ?a) \<subseteq> set (stored_entries ?m1)"
    by (auto simp add: stored_entries_def)
  have inv_a: "sl_inv (mt_table ?a)" using inv1 by (simp add: mgr_inv_def ch1)
  have "eseq (op_entry ?op) \<notin> eseq ` set (mt_entries ?a)"
    using all_lt sub_a by fastforce
  then have fresh: "ekey (op_entry ?op) \<notin> ekey ` set (mt_entries ?a)" by (rule eseq_fresh_ekey)
  obtain a' where app: "MemTable_apply ?a ?op = Some a'"
    and a': "sl_inv (mt_table a')" "set (mt_entries a') = insert (mop_entry op (of_nat n)) (set (mt_entries ?a))"
    and len_a': "length (mt_entries a') = length (mt_entries ?a) + 1"
    using MemTable_apply_inv [OF inv_a fresh] by auto
  let ?mgr' = "?m1\<lparr>mm_current_sequence := of_nat n + 1, mm_active := a',
           mm_total_memory_usage := mm_total_memory_usage ?m1
             + (case op of MPut k v \<Rightarrow> length k + length v + 32 | MDelete k \<Rightarrow> length k + 32)\<rparr>"
  have ap: "Manager_apply mgr op = Some ?mgr'"
    using app seq by (cases op) (simp_all add: Manager_apply_eq Let_def)
  have ch: "mgr_chain ?mgr' = mm_immutables ?m1 @ [a']"
    by (simp add: mgr_chain_def)
  have st: "set (stored_entries ?mgr')
             = insert (mop_entry op (of_nat n)) (set (stored_entries mgr))"
  proof -
    have "set (stored_entries ?mgr')
             = insert (mop_entry op (of_nat n)) (set (stored_entries ?m1))"
      unfolding stored_entries_chain ch ch1 using a'(2) by auto
    then show ?thesis by (simp only: st1)
  qed
  have len: "length (stored_entries ?mgr') = Suc n"
  proof -
    have "length (stored_entries ?m1) = n" using inv1 by (simp add: mgr_inv_def)
    then show ?thesis unfolding stored_entries_chain ch ch1 using len_a' by simp
  qed
  have seqs: "eseq ` set (stored_entries ?mgr') = of_nat ` {..<Suc n}"
  proof -
    have "eseq ` set (stored_entries mgr) = of_nat ` {..<n}" using inv by (simp add: mgr_inv_def)
    then show ?thesis unfolding st by (simp add: lessThan_Suc)
  qed
  have srt: "sorted_wrt older (mm_immutables ?m1 @ [a'])"
  proof -
    have s1: "sorted_wrt older (mm_immutables ?m1 @ [?a])" using inv1 by (simp add: mgr_inv_def ch1)
    have "older t a'" if t: "t \<in> set (mm_immutables ?m1)" for t
    proof -
      have o: "older t ?a" using s1 t by (simp add: sorted_wrt_append)
      have "set (mt_entries t) \<subseteq> set (stored_entries ?m1)"
        using t by (auto simp add: stored_entries_def)
      then have "\<forall>e \<in> set (mt_entries t). eseq e < of_nat n" using all_lt by blast
      then show ?thesis using o a'(2) by (auto simp add: older_def)
    qed
    then show ?thesis using s1 by (simp add: sorted_wrt_append)
  qed
  have invs: "\<forall>t \<in> set (mm_immutables ?m1 @ [a']). sl_inv (mt_table t)"
    using inv1 a'(1) by (auto simp add: mgr_inv_def ch1)
  have cs: "mm_current_sequence ?mgr' = of_nat (Suc n)" by simp
  have "mgr_inv ?mgr' (Suc n)" using cs invs srt seqs len unfolding mgr_inv_def ch by blast
  then show ?thesis using ap st by blast
qed

lemma Manager_apply_all_inv:
  "mgr_inv mgr n \<Longrightarrow> n + length ops \<le> 2 ^ 64 \<Longrightarrow>
   \<exists>mgr'. Manager_apply_all mgr ops = Some mgr'
     \<and> mgr_inv mgr' (n + length ops)
     \<and> set (stored_entries mgr') = set (stored_entries mgr) \<union> set (written_entries ops n)"
proof (induction ops arbitrary: mgr n)
  case Nil
  then show ?case by simp
next
  case (Cons op ops)
  have n: "n < 2 ^ 64" using Cons.prems(2) by simp
  obtain mgr1 where m1: "Manager_apply mgr op = Some mgr1" "mgr_inv mgr1 (Suc n)"
    "set (stored_entries mgr1) = insert (mop_entry op (of_nat n)) (set (stored_entries mgr))"
    using Manager_apply_inv [OF Cons.prems(1) n, of op] by blast
  have "Suc n + length ops \<le> 2 ^ 64" using Cons.prems(2) by simp
  then obtain mgr' where m': "Manager_apply_all mgr1 ops = Some mgr'"
    "mgr_inv mgr' (Suc n + length ops)"
    "set (stored_entries mgr') = set (stored_entries mgr1) \<union> set (written_entries ops (Suc n))"
    using Cons.IH [OF m1(2)] by blast
  show ?case using m1 m' by auto
qed

lemma newest_visible_append_None:
  "\<forall>e \<in> set xs. \<not> visible k s e \<Longrightarrow> newest_visible (xs @ ys) k s = newest_visible ys k s"
  by (induction xs) (auto simp add: visible_def eseq_def)

lemma found_lookup_spec: "found (lookup_spec es k s) \<longleftrightarrow> newest_visible es k s \<noteq> None"
  by (auto simp add: lookup_spec_def LookupResult_NotFound_def LookupResult_Found_def
      LookupResult_Deleted_def split: option.splits)

lemma Get_immutables_spec:
  "\<forall>t \<in> set ts. sl_inv (mt_table t) \<Longrightarrow>
   inj_on eseq (set (concat (map mt_entries ts))) \<Longrightarrow>
   sorted_wrt (\<lambda>a b. older b a) ts \<Longrightarrow>
   Get_immutables ts k s = lookup_spec (concat (map mt_entries ts)) k s"
proof (induction ts)
  case Nil
  then show ?case by (simp add: lookup_spec_def)
next
  case (Cons t ts)
  let ?rest = "concat (map mt_entries ts)"
  have inj_t: "inj_on eseq (set (mt_entries t))" and inj_r: "inj_on eseq (set ?rest)"
    using Cons.prems(2) by (auto simp add: inj_on_def)
  have get_t: "MemTable_Get t k s = lookup_spec (mt_entries t) k s"
    using Cons.prems(1) inj_on_eseq_ekey [OF inj_t] by (intro MemTable_Get_lookup_spec) simp_all
  have ih: "Get_immutables ts k s = lookup_spec ?rest k s"
    using Cons.prems inj_r by (intro Cons.IH) simp_all
  show ?case
  proof (cases "newest_visible (mt_entries t) k s")
    case None
    then have "\<forall>e \<in> set (mt_entries t). \<not> visible k s e" by (simp add: newest_visible_None)
    then have "newest_visible (mt_entries t @ ?rest) k s = newest_visible ?rest k s"
      by (rule newest_visible_append_None)
    then show ?thesis using None get_t ih found_lookup_spec [of "mt_entries t" k s]
      by (simp add: lookup_spec_def Let_def)
  next
    case (Some e)
    note e = newest_visible_Some [OF Some]
    have mx: "\<forall>e' \<in> set (mt_entries t @ ?rest). visible k s e' \<longrightarrow> eseq e' \<le> eseq e"
    proof (intro ballI impI)
      fix e' assume e': "e' \<in> set (mt_entries t @ ?rest)" and v: "visible k s e'"
      show "eseq e' \<le> eseq e"
      proof (cases "e' \<in> set (mt_entries t)")
        case True
        then show ?thesis using e v by blast
      next
        case False
        then obtain u where u: "u \<in> set ts" "e' \<in> set (mt_entries u)" using e' by auto
        then have "older u t" using Cons.prems(3) by simp
        then have "eseq e' < eseq e" using u e by (auto simp add: older_def)
        then show ?thesis by simp
      qed
    qed
    have "newest_visible (mt_entries t @ ?rest) k s = Some e"
      using inj_on_eseq_ekey [OF Cons.prems(2)] e mx by (intro newest_visible_eq) auto
    then show ?thesis using Some get_t found_lookup_spec [of "mt_entries t" k s]
      by (simp add: lookup_spec_def Let_def)
  qed
qed

lemma Get_at_chain:
  "MemTableManager_Get_at mgr k s = Get_immutables (rev (mgr_chain mgr)) k s"
  by (simp add: MemTableManager_Get_at_def mgr_chain_def Let_def)

lemma len64_helper: "LENGTH(64) = 64" by simp

lemma inj_on_of_nat_64: "n \<le> 2 ^ 64 \<Longrightarrow> inj_on (of_nat :: nat \<Rightarrow> 64 word) {..<n}"
proof (rule inj_onI)
  fix i j assume n: "n \<le> 2 ^ 64" and i: "i \<in> {..<n}" and j: "j \<in> {..<n}"
    and e: "(of_nat i :: 64 word) = of_nat j"
  have il: "i < 2 ^ 64" and jl: "j < 2 ^ 64" using n i j by simp_all
  have "unat (of_nat i :: 64 word) = unat (of_nat j :: 64 word)" by (simp only: e)
  then have "i mod 2 ^ 64 = j mod 2 ^ 64" by (simp only: unat_of_nat len64_helper)
  then show "i = j" using il jl by (simp only: mod_less)
qed

lemma inj_on_eseq_stored:
  assumes inv: "mgr_inv mgr n" and n: "n \<le> 2 ^ 64"
  shows "inj_on eseq (set (stored_entries mgr))"
proof -
  let ?S = "set (stored_entries mgr)"
  have img: "eseq ` ?S = of_nat ` {..<n}" using inv by (simp add: mgr_inv_def)
  have "card (of_nat ` {..<n} :: 64 word set) = card {..<n}"
    using inj_on_of_nat_64 [OF n] by (rule card_image)
  then have ci: "card (eseq ` ?S) = n" using img by simp
  have "card ?S \<le> length (stored_entries mgr)" by (rule card_length)
  then have up: "card ?S \<le> n" using inv by (simp add: mgr_inv_def)
  have "card (eseq ` ?S) \<le> card ?S" by (rule card_image_le) simp
  then have "card (eseq ` ?S) = card ?S" using ci up by simp
  then show ?thesis by (intro eq_card_imp_inj_on) simp_all
qed

lemma Manager_Get_at_spec:
  assumes inv: "mgr_inv mgr n" and n: "n \<le> 2 ^ 64"
  shows "MemTableManager_Get_at mgr k s = lookup_spec (stored_entries mgr) k s"
proof -
  let ?ts = "rev (mgr_chain mgr)"
  have i1: "\<forall>t \<in> set ?ts. sl_inv (mt_table t)" using inv by (simp add: mgr_inv_def)
  have st: "set (concat (map mt_entries ?ts)) = set (stored_entries mgr)"
    by (auto simp add: stored_entries_chain)
  have inj: "inj_on eseq (set (stored_entries mgr))" using inv n by (rule inj_on_eseq_stored)
  have i2: "inj_on eseq (set (concat (map mt_entries ?ts)))" unfolding st by (rule inj)
  have i3: "sorted_wrt (\<lambda>a b. older b a) ?ts"
    using inv by (simp add: mgr_inv_def sorted_wrt_rev)
  have "MemTableManager_Get_at mgr k s = lookup_spec (concat (map mt_entries ?ts)) k s"
    unfolding Get_at_chain using i1 i2 i3 by (rule Get_immutables_spec)
  moreover have "newest_visible (concat (map mt_entries ?ts)) k s = newest_visible (stored_entries mgr) k s"
    using st inj_on_eseq_ekey [OF i2] by (rule newest_visible_cong)
  ultimately show ?thesis by (simp add: lookup_spec_def)
qed

lemma written_entries_snoc:
  "written_entries (ops @ [op]) n = written_entries ops n @ [mop_entry op (of_nat (n + length ops))]"
  by (induction ops arbitrary: n) (simp_all add: add.assoc)

lemma eseq_written_entries:
  "eseq ` set (written_entries ops n) = of_nat ` {n..<n + length ops}"
proof (induction ops arbitrary: n)
  case Nil
  then show ?case by simp
next
  case (Cons op ops)
  have "{n..<n + length (op # ops)} = insert n {Suc n..<Suc n + length ops}" by auto
  then show ?case using Cons.IH [of "Suc n"] by simp
qed

lemma last_write_snoc:
  "last_write (ops @ [op]) k = (if mop_key op = k then mop_result op else last_write ops k)"
  by (simp add: last_write_def)

lemma newest_visible_snoc_new:
  "\<forall>e' \<in> set xs. eseq e' < eseq e \<Longrightarrow> visible k s e \<Longrightarrow> newest_visible (xs @ [e]) k s = Some e"
proof (induction xs)
  case Nil
  then show ?case by (simp add: visible_def eseq_def)
next
  case (Cons a xs)
  then have ih: "newest_visible (xs @ [e]) k s = Some e" by simp
  have "\<not> eseq e < eseq a" using Cons.prems(1) by (simp add: not_less less_imp_le)
  then show ?case using ih by (simp add: eseq_def)
qed

lemma newest_visible_snoc_invisible:
  "\<not> visible k s e \<Longrightarrow> newest_visible (xs @ [e]) k s = newest_visible xs k s"
  by (induction xs) (auto simp add: visible_def eseq_def)

lemma newest_visible_snapshot:
  "\<forall>e' \<in> set xs. eseq e' \<le> s \<and> eseq e' \<le> s' \<Longrightarrow> newest_visible xs k s = newest_visible xs k s'"
  by (induction xs) (auto simp add: eseq_def)

lemma lookup_mop_entry:
  "(if vtype (internal_key (mop_entry op seq)) = kDeletion then LookupResult_Deleted
    else LookupResult_Found (entry_value (mop_entry op seq))) = mop_result op"
  by (cases op) simp_all

lemma lookup_written_entries:
  assumes "length ops < 2 ^ 64"
  shows "lookup_spec (written_entries ops 0) k (of_nat (length ops)) = last_write ops k"
  using assms
proof (induction ops rule: rev_induct)
  case Nil
  then show ?case by (simp add: lookup_spec_def last_write_def)
next
  case (snoc op ops)
  let ?n = "length ops"
  let ?W = "written_entries ops 0"
  let ?e = "mop_entry op (of_nat ?n)"
  have n: "Suc ?n < 2 ^ 64" using snoc.prems by simp
  have lt: "\<forall>e' \<in> set ?W. eseq e' < of_nat ?n"
  proof
    fix e' assume "e' \<in> set ?W"
    then have "eseq e' \<in> of_nat ` {0..<0 + ?n}" using eseq_written_entries [of ops 0] by blast
    then show "eseq e' < of_nat ?n" using n by (auto simp add: of_nat_less_64)
  qed
  have lt_suc: "(of_nat ?n :: 64 word) < of_nat (Suc ?n)" using n by (intro of_nat_less_64) simp_all
  have le2: "\<forall>e' \<in> set ?W. eseq e' \<le> of_nat (Suc ?n) \<and> eseq e' \<le> of_nat ?n"
  proof
    fix e' assume "e' \<in> set ?W"
    then have a: "eseq e' < of_nat ?n" using lt by blast
    then have "eseq e' < of_nat (Suc ?n)" using lt_suc by (rule less_trans)
    then show "eseq e' \<le> of_nat (Suc ?n) \<and> eseq e' \<le> of_nat ?n" using a by (simp add: less_imp_le)
  qed
  have W': "written_entries (ops @ [op]) 0 = ?W @ [?e]" by (simp add: written_entries_snoc)
  have ih: "lookup_spec ?W k (of_nat ?n) = last_write ops k" using snoc by simp
  show ?case
  proof (cases "mop_key op = k")
    case True
    have "user_key (internal_key ?e) = k" using True by (cases op) simp_all
    then have vis: "visible k (of_nat (Suc ?n)) ?e"
      using lt_suc by (simp add: visible_def less_imp_le)
    have "newest_visible (?W @ [?e]) k (of_nat (Suc ?n)) = Some ?e"
      using lt vis by (intro newest_visible_snoc_new) simp_all
    then show ?thesis using True
      by (simp add: W' lookup_spec_def last_write_snoc lookup_mop_entry)
  next
    case False
    have "user_key (internal_key ?e) \<noteq> k" using False by (cases op) simp_all
    then have "\<not> visible k (of_nat (Suc ?n)) ?e" by (simp add: visible_def)
    then have "newest_visible (?W @ [?e]) k (of_nat (Suc ?n)) = newest_visible ?W k (of_nat (Suc ?n))"
      by (rule newest_visible_snoc_invisible)
    also have "\<dots> = newest_visible ?W k (of_nat ?n)"
      using le2 by (rule newest_visible_snapshot)
    finally show ?thesis using False ih
      by (simp add: W' lookup_spec_def last_write_snoc)
  qed
qed

lemma Manager_built:
  fixes ops :: "ManagerOp list" and max_size :: nat and rngs :: "nat \<Rightarrow> nat \<Rightarrow> nat"
  assumes n: "length ops < 2 ^ 64"
  shows "\<exists>mgr. Manager_apply_all (MemTableManager_new max_size rngs) ops = Some mgr
           \<and> mgr_inv mgr (length ops)
           \<and> set (stored_entries mgr) = set (written_entries ops 0)"
proof -
  have "stored_entries (MemTableManager_new max_size rngs) = []"
    using MemTable_new_inv [of max_size "rngs 0"]
    by (simp add: stored_entries_def MemTableManager_new_def)
  moreover have "0 + length ops \<le> 2 ^ 64" using n by simp
  ultimately show ?thesis
    using Manager_apply_all_inv [OF mgr_inv_new, of ops max_size rngs] by simp
qed

text \<open>
  C9. Any \<open>n < 2^64\<close> calls of \<^verbatim>\<open>Put\<close> and \<^verbatim>\<open>Delete\<close> on a fresh manager return (no
  assertion fails, whatever rotations happen on the way), and after them:
  \<^verbatim>\<open>CurrentSequence()\<close> is \<open>n\<close>, the memtables hold \<open>n\<close> entries whose sequence numbers are
  exactly \<open>0, \<dots>, n - 1\<close>, every one of them is below the snapshot of the one-argument
  \<^verbatim>\<open>Get\<close>, and that \<^verbatim>\<open>Get\<close> returns the result of the last write to the key.
\<close>

theorem C9_sequences_start_at_zero:
  fixes ops :: "ManagerOp list" and max_size :: nat and rngs :: "nat \<Rightarrow> nat \<Rightarrow> nat" and key :: bytes
  assumes n: "length ops < 2 ^ 64"
  shows "\<exists>mgr. Manager_apply_all (MemTableManager_new max_size rngs) ops = Some mgr
       \<and> CurrentSequence mgr = of_nat (length ops)
       \<and> length (stored_entries mgr) = length ops
       \<and> (\<lambda>e. sequence (internal_key e)) ` set (stored_entries mgr) = of_nat ` {..<length ops}
       \<and> (\<forall>e \<in> set (stored_entries mgr). sequence (internal_key e) < CurrentSequence mgr)
       \<and> MemTableManager_Get mgr key = last_write ops key"
proof -
  obtain mgr where built: "Manager_apply_all (MemTableManager_new max_size rngs) ops = Some mgr"
    and inv: "mgr_inv mgr (length ops)" and st: "set (stored_entries mgr) = set (written_entries ops 0)"
    using Manager_built [OF n, of max_size rngs] by blast
  have le: "length ops \<le> 2 ^ 64" using n by simp
  have cs: "CurrentSequence mgr = of_nat (length ops)"
    using inv by (simp add: mgr_inv_def CurrentSequence_def)
  have len: "length (stored_entries mgr) = length ops" using inv by (simp add: mgr_inv_def)
  have e: "eseq = (\<lambda>e. sequence (internal_key e))" by (rule ext) (simp add: eseq_def)
  have img: "(\<lambda>e. sequence (internal_key e)) ` set (stored_entries mgr) = of_nat ` {..<length ops}"
    using inv unfolding e [symmetric] by (simp add: mgr_inv_def)
  have lt: "\<forall>e \<in> set (stored_entries mgr). sequence (internal_key e) < CurrentSequence mgr"
  proof
    fix x assume "x \<in> set (stored_entries mgr)"
    then have "sequence (internal_key x) \<in> of_nat ` {..<length ops}" using img by blast
    then show "sequence (internal_key x) < CurrentSequence mgr"
      unfolding cs using n by (auto simp add: of_nat_less_64)
  qed
  have inj: "inj_on eseq (set (stored_entries mgr))" using inv le by (rule inj_on_eseq_stored)
  have "MemTableManager_Get mgr key = lookup_spec (stored_entries mgr) key (of_nat (length ops))"
    using Manager_Get_at_spec [OF inv le, of key "of_nat (length ops)"] inv
    by (simp add: MemTableManager_Get_def mgr_inv_def)
  moreover have "newest_visible (stored_entries mgr) key (of_nat (length ops))
                  = newest_visible (written_entries ops 0) key (of_nat (length ops))"
    using st inj_on_eseq_ekey [OF inj] by (rule newest_visible_cong)
  ultimately have get: "MemTableManager_Get mgr key = last_write ops key"
    using lookup_written_entries [OF n, of key] by (simp add: lookup_spec_def)
  show ?thesis using built cs len img lt get by blast
qed

theorem C9_sequences_start_at_zero_witness:
  "length [MPut (bytes_of ''k'') (bytes_of ''a''), MDelete (bytes_of ''k''),
           MPut (bytes_of ''j'') (bytes_of ''b'')] < 2 ^ 64
   \<and> (\<exists>mgr. Manager_apply_all (MemTableManager_new 100 (\<lambda>i n. n))
               [MPut (bytes_of ''k'') (bytes_of ''a''), MDelete (bytes_of ''k''),
                MPut (bytes_of ''j'') (bytes_of ''b'')] = Some mgr
        \<and> CurrentSequence mgr = 3
        \<and> MemTableManager_Get mgr (bytes_of ''k'') = LookupResult_Deleted)"
proof -
  let ?ops = "[MPut (bytes_of ''k'') (bytes_of ''a''), MDelete (bytes_of ''k''),
           MPut (bytes_of ''j'') (bytes_of ''b'')]"
  have n: "length ?ops < 2 ^ 64" by simp
  have lw: "last_write ?ops (bytes_of ''k'') = LookupResult_Deleted"
    by (simp add: last_write_def bytes_of_def)
  obtain mgr where "Manager_apply_all (MemTableManager_new 100 (\<lambda>i n. n)) ?ops = Some mgr"
    "CurrentSequence mgr = of_nat (length ?ops)"
    "MemTableManager_Get mgr (bytes_of ''k'') = last_write ?ops (bytes_of ''k'')"
    using C9_sequences_start_at_zero [where ops = ?ops and max_size = 100
        and rngs = "\<lambda>i n. n" and key = "bytes_of ''k''", OF n]
    by blast
  then show ?thesis using n lw by auto
qed

section \<open>WAL recovery\<close>

lemma ReadRecord_status:
  "ok (rr_status (fst (ReadRecord r))) \<or> IsCorruption (rr_status (fst (ReadRecord r)))"
  by (simp add: ReadRecord_def ReadResult_Eof_def ReadResult_Error_def ReadResult_OK_def
      Status_Corruption_def Status_OK_def ok_def IsCorruption_def Let_def split: option.splits)

lemma ReadRecord_size: "wr_size (snd (ReadRecord r)) = wr_size r"
  by (simp add: ReadRecord_def Let_def split: option.splits)

lemma ReadEntry_status:
  assumes "fst (ReadEntry decode r) = Inl s"
  shows "s = Status_OK \<or> IsCorruption s"
proof -
  obtain res r' where rr: "ReadRecord r = (res, r')" by (cases "ReadRecord r") auto
  have "ok (rr_status res) \<or> IsCorruption (rr_status res)"
    using ReadRecord_status [of r] rr by simp
  then show ?thesis using assms rr
    by (auto simp add: ReadEntry_def Let_def Status_Corruption_def IsCorruption_def
        split: if_splits option.splits)
qed

lemma ReadEntry_size: "wr_size (snd (ReadEntry decode r)) = wr_size r"
proof -
  obtain res r' where rr: "ReadRecord r = (res, r')" by (cases "ReadRecord r") auto
  then have "wr_size r' = wr_size r" using ReadRecord_size [of r] by simp
  then show ?thesis using rr by (simp add: ReadEntry_def Let_def split: option.splits)
qed

lemma replay_Inl:
  "ReadEntry decode r = (Inl s, r') \<Longrightarrow> replay decode r ms = Some (s, r', ms)"
  by (subst replay.simps) simp

lemma replay_Inr:
  "ReadEntry decode r = (Inr e, r') \<Longrightarrow>
   replay decode r ms
     = (case Recover_entry e ms of None \<Rightarrow> None | Some ms' \<Rightarrow> replay decode r' ms')"
  by (subst replay.simps) simp

lemma replay_status:
  "replay decode r ms = Some (s, rd, ms') \<Longrightarrow> s = Status_OK \<or> IsCorruption s"
proof (induction decode r ms rule: replay.induct)
  case (1 decode r ms)
  obtain res r1 where re: "ReadEntry decode r = (res, r1)" by (cases "ReadEntry decode r") auto
  show ?case
  proof (cases res)
    case (Inl st)
    then have "replay decode r ms = Some (st, r1, ms)" using re by (simp add: replay_Inl)
    then have "s = st" using "1.prems" by simp
    then show ?thesis using ReadEntry_status [of decode r st] re Inl by simp
  next
    case (Inr e)
    then have "replay decode r ms
        = (case Recover_entry e ms of None \<Rightarrow> None | Some ms1 \<Rightarrow> replay decode r1 ms1)"
      using re by (simp add: replay_Inr)
    then obtain ms1 where ms1: "Recover_entry e ms = Some ms1"
      and rp: "replay decode r1 ms1 = Some (s, rd, ms')"
      using "1.prems" by (cases "Recover_entry e ms") auto
    show ?thesis using "1.IH" [OF re [symmetric] Inr ms1 rp] .
  qed
qed

lemma Recover_segments_OK:
  "Recover_segments decode db_path segs ms = Some (s, ms') \<Longrightarrow> s = Status_OK"
proof (induction segs arbitrary: ms)
  case Nil
  then show ?case by simp
next
  case (Cons sg segs)
  obtain log_num seg where sg: "sg = (log_num, seg)" by (cases sg) auto
  obtain so reader where op: "WALReader_Open (LogPath db_path log_num) seg = (so, reader)"
    by (cases "WALReader_Open (LogPath db_path log_num) seg") auto
  show ?case
  proof (cases "ok so")
    case False
    then show ?thesis using op sg Cons by simp
  next
    case True
    show ?thesis
    proof (cases "replay decode reader ms")
      case None
      then show ?thesis using op sg True Cons.prems by simp
    next
      case (Some res)
      obtain rs rd m st where res: "res = (rs, rd, m, st)" by (cases res) auto
      have "rs = Status_OK \<or> IsCorruption rs" using replay_status Some res by blast
      then have c: "(\<not> ok rs \<and> \<not> IsCorruption rs) = False"
        by (auto simp add: ok_def Status_OK_def)
      have "Recover_segments decode db_path (sg # segs) ms
                   = Recover_segments decode db_path segs
                       (m, st\<lparr>bytes_read := bytes_read st + wr_size rd\<rparr>)"
        using op sg True Some res by (simp add: Let_def c)
      then show ?thesis using Cons by simp
    qed
  qed
qed

lemma Recover_returns_OK:
  assumes "Recover decode db_path (Segments segs) m = Some r"
  shows "fst r = Status_OK"
proof (cases "Recover_segments decode db_path segs (m, RecoveryStats_new)")
  case None
  then show ?thesis using assms by (simp add: Recover_def)
next
  case (Some res)
  obtain s ms' where res: "res = (s, ms')" by (cases res) auto
  then have "s = Status_OK" using Some Recover_segments_OK by blast
  then show ?thesis using assms Some res
    by (auto simp add: Recover_def ok_def Status_OK_def split: prod.splits)
qed

lemma entry_ops_append: "entry_ops (a @ b) = entry_ops a @ entry_ops b"
  by (induction a) simp_all

lemma entry_ops_keys:
  "map (\<lambda>op. ekey (op_entry op)) (entry_ops es)
     = map (\<lambda>e. (we_key e, we_sequence e)) [e \<leftarrow> es. we_type e = kPut \<or> we_type e = kDelete]"
  by (induction es) (simp_all add: ekey_def)

lemma MemTable_apply_all_append:
  "MemTable_apply_all m (a @ b)
     = (case MemTable_apply_all m a of None \<Rightarrow> None | Some m' \<Rightarrow> MemTable_apply_all m' b)"
  by (induction a arbitrary: m) (simp_all split: option.splits)

lemma stats_after_Nil [simp]: "stats_after [] st = st"
  by (simp add: stats_after_def)

lemma stats_after_Cons: "stats_after (e # es) st = stats_after es (stats_after [e] st)"
  by (simp add: stats_after_def)

lemma stats_after_segments:
  "(stats_after b ((stats_after a st)\<lparr>bytes_read := bytes_read st + x\<rparr>))
     \<lparr>bytes_read := bytes_read ((stats_after a st)\<lparr>bytes_read := bytes_read st + x\<rparr>) + y\<rparr>
   = (stats_after (a @ b) st)\<lparr>bytes_read := bytes_read st + (x + y)\<rparr>"
  by (simp add: stats_after_def)

lemma Recover_entry_eq:
  "Recover_entry e (m, st)
     = (case MemTable_apply_all m (entry_ops [e]) of
          None \<Rightarrow> None
        | Some m' \<Rightarrow> Some (m', stats_after [e] st))"
proof (cases "we_type e")
  case kPut
  then show ?thesis
    by (cases "MemTable_Put m (we_sequence e) (we_key e) (we_value e)")
       (simp_all add: Recover_entry_def stats_after_def Let_def max_def not_less)
next
  case kDelete
  then show ?thesis
    by (cases "MemTable_Delete m (we_sequence e) (we_key e)")
       (simp_all add: Recover_entry_def stats_after_def Let_def max_def not_less)
next
  case kOtherEntryType
  then show ?thesis
    by (simp add: Recover_entry_def stats_after_def Let_def max_def not_less)
qed

lemma Recover_entries_eq:
  "Recover_entries es (m, st)
     = (case MemTable_apply_all m (entry_ops es) of
          None \<Rightarrow> None
        | Some m' \<Rightarrow> Some (m', stats_after es st))"
proof (induction es arbitrary: m st)
  case Nil
  then show ?case by simp
next
  case (Cons e es)
  have ops: "entry_ops (e # es) = entry_ops [e] @ entry_ops es"
    using entry_ops_append [of "[e]" es] by simp
  show ?case
  proof (cases "MemTable_apply_all m (entry_ops [e])")
    case None
    then show ?thesis
      unfolding ops MemTable_apply_all_append by (simp add: Recover_entry_eq)
  next
    case (Some m1)
    then have "Recover_entries (e # es) (m, st) = Recover_entries es (m1, stats_after [e] st)"
      by (simp add: Recover_entry_eq)
    then show ?thesis
      unfolding ops MemTable_apply_all_append Some
      using Cons.IH [of m1 "stats_after [e] st"] stats_after_Cons [of e es st]
      by (simp split: option.splits)
  qed
qed

lemma ReadEntry_WAL_record:
  fixes payload pre post :: bytes and fd :: int
  defines "data \<equiv> pre @ WAL_record payload @ post"
  defines "r \<equiv> \<lparr>wr_fd = fd, wr_data = Some data, wr_size = length data, wr_pos = length pre\<rparr>"
  assumes small: "length payload \<le> 65535" and dec: "decode payload = Some e"
  shows "ReadEntry decode r = (Inr e, r\<lparr>wr_pos := length (pre @ WAL_record payload)\<rparr>)"
proof -
  have L: "length payload mod 65536 = length payload" using small by simp
  have "ReadRecord r = (ReadResult_OK payload, r\<lparr>wr_pos := length pre + kHeaderSize + length payload\<rparr>)"
    using ReadRecord_WAL_record [where payload = payload and pre = pre and post = post and fd = fd]
    unfolding L r_def data_def by simp
  then show ?thesis using dec
    by (simp add: ReadEntry_def ReadResult_OK_def Status_OK_def ok_def kHeaderSize_def Let_def)
qed

lemma replay_records:
  "\<forall>p \<in> set payloads. length p \<le> 65535 \<Longrightarrow> map decode payloads = map Some entries \<Longrightarrow>
   replay decode
     \<lparr>wr_fd = fd, wr_data = Some (pre @ concat (map WAL_record payloads) @ tail),
      wr_size = length (pre @ concat (map WAL_record payloads) @ tail), wr_pos = length pre\<rparr> ms
   = (case Recover_entries entries ms of
        None \<Rightarrow> None
      | Some ms' \<Rightarrow>
          replay decode
            \<lparr>wr_fd = fd, wr_data = Some (pre @ concat (map WAL_record payloads) @ tail),
             wr_size = length (pre @ concat (map WAL_record payloads) @ tail),
             wr_pos = length (pre @ concat (map WAL_record payloads))\<rparr> ms')"
proof (induction payloads arbitrary: pre entries ms)
  case Nil
  then show ?case by simp
next
  case (Cons p ps)
  then obtain e es where es: "entries = e # es" "decode p = Some e" "map decode ps = map Some es"
    by (cases entries) auto
  let ?file = "pre @ concat (map WAL_record (p # ps)) @ tail"
  have f: "?file = pre @ WAL_record p @ (concat (map WAL_record ps) @ tail)" by simp
  have f2: "?file = (pre @ WAL_record p) @ concat (map WAL_record ps) @ tail" by simp
  have small: "length p \<le> 65535" using Cons.prems(1) by simp
  have step: "ReadEntry decode \<lparr>wr_fd = fd, wr_data = Some ?file, wr_size = length ?file, wr_pos = length pre\<rparr>
                = (Inr e, \<lparr>wr_fd = fd, wr_data = Some ?file, wr_size = length ?file,
                           wr_pos = length (pre @ WAL_record p)\<rparr>)"
    unfolding f
    using ReadEntry_WAL_record [where payload = p and pre = pre
        and post = "concat (map WAL_record ps) @ tail" and fd = fd and decode = decode, OF small es(2)]
    by simp
  have ih: "replay decode
     \<lparr>wr_fd = fd, wr_data = Some ?file, wr_size = length ?file, wr_pos = length (pre @ WAL_record p)\<rparr>
       ms1
   = (case Recover_entries es ms1 of
        None \<Rightarrow> None
      | Some ms' \<Rightarrow>
          replay decode
            \<lparr>wr_fd = fd, wr_data = Some ?file, wr_size = length ?file,
             wr_pos = length ((pre @ WAL_record p) @ concat (map WAL_record ps))\<rparr> ms')" for ms1
    unfolding f2 using Cons.prems(1) es(3) by (intro Cons.IH) simp_all
  show ?case
  proof (cases "Recover_entry e ms")
    case None
    then show ?thesis unfolding replay_Inr [OF step] es(1) by simp
  next
    case (Some ms1)
    then show ?thesis unfolding replay_Inr [OF step] es(1) using ih [of ms1]
      by (simp split: option.splits)
  qed
qed

lemma concat_WAL_record_Nil: "concat (map WAL_record payloads) = [] \<Longrightarrow> payloads = []"
proof (cases payloads)
  case Nil
  then show ?thesis by simp
next
  case (Cons p ps)
  assume "concat (map WAL_record payloads) = []"
  then have "length (WAL_record p) = 0" using Cons by simp
  then show ?thesis by simp
qed

lemma replay_log:
  assumes small: "\<forall>p \<in> set (sc_payloads lg). length p \<le> 65535"
    and dec: "map decode (sc_payloads lg) = map Some (sc_entries lg)"
    and stops: "stops_at_tail decode lg"
  shows "\<exists>s rd. (s = Status_OK \<or> IsCorruption s) \<and> wr_size rd = length (log_file lg)
           \<and> replay decode (snd (WALReader_Open path (Readable (log_file lg)))) ms
               = (case Recover_entries (sc_entries lg) ms of
                    None \<Rightarrow> None
                  | Some ms' \<Rightarrow> Some (s, rd, ms'))"
proof (cases "log_file lg = []")
  case True
  then have "concat (map WAL_record (sc_payloads lg)) = []" by (simp add: log_file_def)
  then have "sc_payloads lg = []" by (rule concat_WAL_record_Nil)
  then have en: "sc_entries lg = []" using dec by simp
  let ?r = "\<lparr>wr_fd = 3, wr_data = None, wr_size = 0, wr_pos = 0\<rparr>"
  have op: "snd (WALReader_Open path (Readable (log_file lg))) = ?r" using True by simp
  have "ReadEntry decode ?r = (Inl Status_OK, ?r)"
    by (simp add: ReadEntry_def ReadRecord_def ReadResult_Eof_def Let_def)
  then have "replay decode ?r ms = Some (Status_OK, ?r, ms)" by (rule replay_Inl)
  then show ?thesis unfolding op en using True by auto
next
  case False
  let ?file = "log_file lg"
  let ?at_tail = "\<lparr>wr_fd = 3, wr_data = Some ?file, wr_size = length ?file,
                   wr_pos = length ?file - length (sc_tail lg)\<rparr>"
  let ?r0 = "\<lparr>wr_fd = 3, wr_data = Some ?file, wr_size = length ?file, wr_pos = 0\<rparr>"
  have op: "snd (WALReader_Open path (Readable ?file)) = ?r0" using False by simp
  obtain res rd where re: "ReadEntry decode ?at_tail = (res, rd)"
    by (cases "ReadEntry decode ?at_tail") auto
  then obtain s where s: "res = Inl s" using stops by (cases res) (simp_all add: stops_at_tail_def)
  have st: "s = Status_OK \<or> IsCorruption s" using ReadEntry_status [of decode ?at_tail s] re s by simp
  have sz: "wr_size rd = length ?file" using ReadEntry_size [of decode ?at_tail] re by simp
  have pos: "length ?file - length (sc_tail lg) = length (concat (map WAL_record (sc_payloads lg)))"
    by (simp add: log_file_def)
  have "replay decode ?r0 ms
          = (case Recover_entries (sc_entries lg) ms of
               None \<Rightarrow> None
             | Some ms' \<Rightarrow> replay decode ?at_tail ms')"
    using replay_records [OF small dec, where pre = "[]" and tail = "sc_tail lg" and fd = 3 and ms = ms]
    unfolding pos by (simp add: log_file_def split: option.splits)
  moreover have "replay decode ?at_tail ms' = Some (s, rd, ms')" for ms'
    using re s by (intro replay_Inl) simp
  ultimately have "replay decode ?r0 ms
          = (case Recover_entries (sc_entries lg) ms of
               None \<Rightarrow> None
             | Some ms' \<Rightarrow> Some (s, rd, ms'))"
    by (simp split: option.splits)
  then show ?thesis unfolding op using st sz by blast
qed

lemma Recover_segments_readable:
  assumes small: "\<forall>p \<in> set (sc_payloads lg). length p \<le> 65535"
    and dec: "map decode (sc_payloads lg) = map Some (sc_entries lg)"
    and stops: "stops_at_tail decode lg"
  shows "Recover_segments decode db_path ((log_num, Readable (log_file lg)) # segs) (m, st)
           = (case MemTable_apply_all m (entry_ops (sc_entries lg)) of
                None \<Rightarrow> None
              | Some m' \<Rightarrow>
                  Recover_segments decode db_path segs
                    (m', (stats_after (sc_entries lg) st)
                           \<lparr>bytes_read := bytes_read st + length (log_file lg)\<rparr>))"
proof -
  let ?path = "LogPath db_path log_num"
  obtain s rd where s: "s = Status_OK \<or> IsCorruption s" and sz: "wr_size rd = length (log_file lg)"
    and rp: "replay decode (snd (WALReader_Open ?path (Readable (log_file lg)))) (m, st)
               = (case Recover_entries (sc_entries lg) (m, st) of
                    None \<Rightarrow> None
                  | Some ms' \<Rightarrow> Some (s, rd, ms'))"
    using replay_log [OF small dec stops, of ?path "(m, st)"] by blast
  have ns: "(\<not> ok s \<and> \<not> IsCorruption s) = False" using s by (auto simp add: ok_def Status_OK_def)
  have op: "ok (fst (WALReader_Open ?path (Readable (log_file lg))))"
    by (simp add: ok_def Status_OK_def)
  have br: "bytes_read (stats_after (sc_entries lg) st) = bytes_read st"
    by (simp add: stats_after_def)
  show ?thesis
  proof (cases "MemTable_apply_all m (entry_ops (sc_entries lg))")
    case None
    then have "replay decode (snd (WALReader_Open ?path (Readable (log_file lg)))) (m, st) = None"
      unfolding rp by (simp add: Recover_entries_eq)
    then show ?thesis using op None by (simp add: split_beta)
  next
    case (Some m')
    then have "replay decode (snd (WALReader_Open ?path (Readable (log_file lg)))) (m, st)
                 = Some (s, rd, m', stats_after (sc_entries lg) st)"
      unfolding rp by (simp add: Recover_entries_eq)
    then show ?thesis using op Some sz br by (simp add: split_beta Let_def ns)
  qed
qed

lemma Recover_segments_unreadable:
  "\<not> readable seg \<Longrightarrow>
   Recover_segments decode db_path ((log_num, seg) # segs) ms
     = Recover_segments decode db_path segs ms"
  by (cases seg) (simp_all add: ok_def Status_IOError_def)

lemma Recover_segments_logs:
  "[seg \<leftarrow> map snd segs. readable seg] = map (\<lambda>lg. Readable (log_file lg)) logs \<Longrightarrow>
   \<forall>lg \<in> set logs. (\<forall>p \<in> set (sc_payloads lg). length p \<le> 65535)
      \<and> map decode (sc_payloads lg) = map Some (sc_entries lg)
      \<and> stops_at_tail decode lg \<Longrightarrow>
   MemTable_apply_all m (entry_ops (concat (map sc_entries logs))) = Some M \<Longrightarrow>
   Recover_segments decode db_path segs (m, st)
     = Some (Status_OK, M,
             (stats_after (concat (map sc_entries logs)) st)
               \<lparr>bytes_read := bytes_read st + sum_list (map (\<lambda>lg. length (log_file lg)) logs)\<rparr>)"
proof (induction segs arbitrary: logs m st)
  case Nil
  then have "logs = []" by simp
  then show ?case using Nil by simp
next
  case (Cons sg segs)
  obtain log_num seg where sg: "sg = (log_num, seg)" by (cases sg) auto
  show ?case
  proof (cases "readable seg")
    case False
    then have "[seg \<leftarrow> map snd segs. readable seg] = map (\<lambda>lg. Readable (log_file lg)) logs"
      using Cons.prems(1) sg by simp
    then show ?thesis
      unfolding sg Recover_segments_unreadable [OF False]
      using Cons.prems(2,3) by (intro Cons.IH) simp_all
  next
    case True
    then obtain lg logs' where logs: "logs = lg # logs'" and seg: "seg = Readable (log_file lg)"
      and rest: "[seg \<leftarrow> map snd segs. readable seg] = map (\<lambda>lg. Readable (log_file lg)) logs'"
      using Cons.prems(1) sg by (cases logs) auto
    have hyp: "\<forall>p \<in> set (sc_payloads lg). length p \<le> 65535"
      "map decode (sc_payloads lg) = map Some (sc_entries lg)" "stops_at_tail decode lg"
      using Cons.prems(2) logs by simp_all
    have hyps': "\<forall>lg \<in> set logs'. (\<forall>p \<in> set (sc_payloads lg). length p \<le> 65535)
      \<and> map decode (sc_payloads lg) = map Some (sc_entries lg)
      \<and> stops_at_tail decode lg"
      using Cons.prems(2) logs by simp
    let ?rest = "concat (map sc_entries logs')"
    have "MemTable_apply_all m (entry_ops (sc_entries lg) @ entry_ops ?rest) = Some M"
      using Cons.prems(3) logs by (simp add: entry_ops_append)
    then obtain m1 where m1: "MemTable_apply_all m (entry_ops (sc_entries lg)) = Some m1"
      and M: "MemTable_apply_all m1 (entry_ops ?rest) = Some M"
      unfolding MemTable_apply_all_append
      by (cases "MemTable_apply_all m (entry_ops (sc_entries lg))") auto
    let ?st1 = "(stats_after (sc_entries lg) st)\<lparr>bytes_read := bytes_read st + length (log_file lg)\<rparr>"
    have "Recover_segments decode db_path (sg # segs) (m, st)
            = Recover_segments decode db_path segs (m1, ?st1)"
      unfolding sg seg Recover_segments_readable [OF hyp] m1 by simp
    also have "\<dots> = Some (Status_OK, M,
             (stats_after ?rest ?st1)
               \<lparr>bytes_read := bytes_read ?st1 + sum_list (map (\<lambda>lg. length (log_file lg)) logs')\<rparr>)"
      using rest hyps' M by (rule Cons.IH)
    also have "(stats_after ?rest ?st1)
               \<lparr>bytes_read := bytes_read ?st1 + sum_list (map (\<lambda>lg. length (log_file lg)) logs')\<rparr>
             = (stats_after (sc_entries lg @ ?rest) st)
               \<lparr>bytes_read := bytes_read st
                  + (length (log_file lg) + sum_list (map (\<lambda>lg. length (log_file lg)) logs'))\<rparr>"
      by (rule stats_after_segments)
    finally show ?thesis by (simp add: logs)
  qed
qed

lemma apply_all_duplicate:
  "sl_inv (mt_table m) \<Longrightarrow>
   \<not> distinct (map (\<lambda>op. ekey (op_entry op)) ops)
     \<or> (\<lambda>op. ekey (op_entry op)) ` set ops \<inter> ekey ` set (mt_entries m) \<noteq> {} \<Longrightarrow>
   MemTable_apply_all m ops = None"
proof (induction ops arbitrary: m)
  case Nil
  then show ?case by simp
next
  case (Cons op ops)
  show ?case
  proof (cases "ekey (op_entry op) \<in> ekey ` set (mt_entries m)")
    case True
    then have "MemTable_apply m op = None" using Cons.prems(1) by (intro MemTable_apply_duplicate)
    then show ?thesis by simp
  next
    case False
    then obtain m1 where m1: "MemTable_apply m op = Some m1" "sl_inv (mt_table m1)"
      "set (mt_entries m1) = insert (op_entry op) (set (mt_entries m))"
      using MemTable_apply_inv [OF Cons.prems(1)] by blast
    have "\<not> distinct (map (\<lambda>op. ekey (op_entry op)) ops)
          \<or> (\<lambda>op. ekey (op_entry op)) ` set ops \<inter> ekey ` set (mt_entries m1) \<noteq> {}"
      using Cons.prems(2) False m1(3) by auto
    then have "MemTable_apply_all m1 ops = None" using m1(2) by (intro Cons.IH)
    then show ?thesis using m1(1) by simp
  qed
qed

lemma Recover_segments_logs_abort:
  "[seg \<leftarrow> map snd segs. readable seg] = map (\<lambda>lg. Readable (log_file lg)) logs \<Longrightarrow>
   \<forall>lg \<in> set logs. (\<forall>p \<in> set (sc_payloads lg). length p \<le> 65535)
      \<and> map decode (sc_payloads lg) = map Some (sc_entries lg)
      \<and> stops_at_tail decode lg \<Longrightarrow>
   MemTable_apply_all m (entry_ops (concat (map sc_entries logs))) = None \<Longrightarrow>
   Recover_segments decode db_path segs (m, st) = None"
proof (induction segs arbitrary: logs m st)
  case Nil
  then have "logs = []" by simp
  then show ?case using Nil by simp
next
  case (Cons sg segs)
  obtain log_num seg where sg: "sg = (log_num, seg)" by (cases sg) auto
  show ?case
  proof (cases "readable seg")
    case False
    then have "[seg \<leftarrow> map snd segs. readable seg] = map (\<lambda>lg. Readable (log_file lg)) logs"
      using Cons.prems(1) sg by simp
    then show ?thesis
      unfolding sg Recover_segments_unreadable [OF False]
      using Cons.prems(2,3) by (intro Cons.IH) simp_all
  next
    case True
    then obtain lg logs' where logs: "logs = lg # logs'" and seg: "seg = Readable (log_file lg)"
      and rest: "[seg \<leftarrow> map snd segs. readable seg] = map (\<lambda>lg. Readable (log_file lg)) logs'"
      using Cons.prems(1) sg by (cases logs) auto
    have hyp: "\<forall>p \<in> set (sc_payloads lg). length p \<le> 65535"
      "map decode (sc_payloads lg) = map Some (sc_entries lg)" "stops_at_tail decode lg"
      using Cons.prems(2) logs by simp_all
    have hyps': "\<forall>lg \<in> set logs'. (\<forall>p \<in> set (sc_payloads lg). length p \<le> 65535)
      \<and> map decode (sc_payloads lg) = map Some (sc_entries lg)
      \<and> stops_at_tail decode lg"
      using Cons.prems(2) logs by simp
    let ?rest = "concat (map sc_entries logs')"
    have none: "MemTable_apply_all m (entry_ops (sc_entries lg) @ entry_ops ?rest) = None"
      using Cons.prems(3) logs by (simp add: entry_ops_append)
    show ?thesis
    proof (cases "MemTable_apply_all m (entry_ops (sc_entries lg))")
      case None
      then show ?thesis unfolding sg seg Recover_segments_readable [OF hyp] by simp
    next
      case (Some m1)
      then have "MemTable_apply_all m1 (entry_ops ?rest) = None"
        using none unfolding MemTable_apply_all_append by simp
      then have "Recover_segments decode db_path segs
                   (m1, (stats_after (sc_entries lg) st)
                          \<lparr>bytes_read := bytes_read st + length (log_file lg)\<rparr>) = None"
        using rest hyps' by (intro Cons.IH)
      then show ?thesis unfolding sg seg Recover_segments_readable [OF hyp] Some by simp
    qed
  qed
qed

lemma decimal_1: "decimal 1 = ''1''"
  by (subst decimal.simps) simp

lemma decimal_2: "decimal 2 = ''2''"
  by (subst decimal.simps) simp

lemma replicate_5: "replicate 5 c = [c, c, c, c, c]"
  by (simp add: numeral_eq_Suc)

lemma LogPath_1: "LogPath db_path 1 = db_path @ ''/wal/log.000001''"
  unfolding LogPath_def decimal_1 by (simp add: replicate_5)

lemma LogPath_Suc_0: "LogPath db_path (Suc 0) = db_path @ ''/wal/log.000001''"
  using LogPath_1 [of db_path] by simp

text \<open>
  C3. The claim: an I/O error met on a segment makes \<^verbatim>\<open>Recover\<close> return that error. The
  only I/O errors of a segment come from opening it (\<^verbatim>\<open>open\<close>, \<^verbatim>\<open>fstat\<close>, \<^verbatim>\<open>mmap\<close>), and
  \<^verbatim>\<open>Recover\<close> skips such a segment: with the single segment \<^verbatim>\<open>log.000001\<close>, which
  \<^verbatim>\<open>open\<close> fails to open, it returns OK and leaves the fresh memtable as it is.
\<close>

theorem C3_unopenable_segment_is_skipped:
  "fst (WALReader_Open (LogPath ''db'' 1) OpenFails)
     = Status_IOError ''Failed to open WAL for reading: db/wal/log.000001''
   \<and> Recover (\<lambda>p. None) ''db'' (Segments [(1, OpenFails)]) (MemTable_new 4194304 (\<lambda>n. 0))
       = Some (Status_OK, MemTable_new 4194304 (\<lambda>n. 0), Some RecoveryStats_new)"
  by (simp add: Recover_def ok_def Status_IOError_def Status_OK_def LogPath_1 LogPath_Suc_0)

text \<open>
  C3, amended. The segments of the directory are replayed into a fresh memtable. Those
  that cannot be opened are skipped. Each of the others holds the records of payloads
  that decode to entries, followed by a tail that is empty or at which \<^verbatim>\<open>ReadEntry\<close>
  reports a Corruption. If no two of the puts and deletes among all these entries have
  the same user key and sequence number, then \<^verbatim>\<open>Recover\<close> returns OK; the memtable is
  the one that the puts and deletes of all the entries build in their order, so that
  \<^verbatim>\<open>Get\<close> returns for every key and snapshot the newest of these entries visible there;
  and the statistics count all the entries and the sizes of the segments read. If two
  of them have the same user key and sequence number, the assertion of
  \<^verbatim>\<open>SkipList::Insert\<close> fails and \<^verbatim>\<open>Recover\<close> does not return. Moreover
  \<^verbatim>\<open>ReadEntry\<close> reports nothing but OK and Corruption, so for every list of segments
  \<^verbatim>\<open>Recover\<close> returns OK whenever it returns.
\<close>

theorem C3_recover_tolerates_corrupt_tail:
  fixes decode :: "bytes \<Rightarrow> WALEntry option" and db_path :: string
    and segs all_segs :: "(nat \<times> segment_file) list" and logs :: "segment_contents list"
    and max_size :: nat and rng :: "nat \<Rightarrow> nat"
  defines "entries \<equiv> concat (map sc_entries logs)"
  assumes files: "[seg \<leftarrow> map snd segs. readable seg] = map (\<lambda>lg. Readable (log_file lg)) logs"
    and records: "\<forall>lg \<in> set logs. (\<forall>p \<in> set (sc_payloads lg). length p \<le> 65535)
                    \<and> map decode (sc_payloads lg) = map Some (sc_entries lg)"
    and tails: "\<forall>lg \<in> set logs. stops_at_tail decode lg"
  shows "(if distinct (map (\<lambda>e. (we_key e, we_sequence e))
                          [e \<leftarrow> entries. we_type e = kPut \<or> we_type e = kDelete])
          then \<exists>M. MemTable_apply_all (MemTable_new max_size rng) (entry_ops entries) = Some M
                 \<and> Recover decode db_path (Segments segs) (MemTable_new max_size rng)
                     = Some (Status_OK, M,
                             Some \<lparr>records_read = length entries,
                                   bytes_read = sum_list (map (\<lambda>lg. length (log_file lg)) logs),
                                   puts_recovered = length [e \<leftarrow> entries. we_type e = kPut],
                                   deletes_recovered = length [e \<leftarrow> entries. we_type e = kDelete],
                                   rs_max_sequence = fold max (map we_sequence entries) 0\<rparr>)
                 \<and> (\<forall>k S. MemTable_Get M k S
                            = lookup_spec (map op_entry (entry_ops entries)) k S)
          else Recover decode db_path (Segments segs) (MemTable_new max_size rng) = None)
       \<and> (\<forall>r. Recover decode db_path (Segments all_segs) (MemTable_new max_size rng) = Some r
              \<longrightarrow> fst r = Status_OK)"
proof (cases "distinct (map (\<lambda>e. (we_key e, we_sequence e))
                          [e \<leftarrow> entries. we_type e = kPut \<or> we_type e = kDelete])")
  case False
  have hyps: "\<forall>lg \<in> set logs. (\<forall>p \<in> set (sc_payloads lg). length p \<le> 65535)
      \<and> map decode (sc_payloads lg) = map Some (sc_entries lg)
      \<and> stops_at_tail decode lg"
    using records tails by blast
  have "\<not> distinct (map (\<lambda>op. ekey (op_entry op)) (entry_ops entries))"
    using False by (simp add: entry_ops_keys)
  then have "MemTable_apply_all (MemTable_new max_size rng) (entry_ops entries) = None"
    using MemTable_new_inv [of max_size rng] by (intro apply_all_duplicate) simp_all
  then have "Recover_segments decode db_path segs (MemTable_new max_size rng, RecoveryStats_new)
               = None"
    using files hyps unfolding entries_def by (intro Recover_segments_logs_abort)
  then have "Recover decode db_path (Segments segs) (MemTable_new max_size rng) = None"
    by (simp add: Recover_def)
  moreover have "\<forall>r. Recover decode db_path (Segments all_segs) (MemTable_new max_size rng) = Some r
                  \<longrightarrow> fst r = Status_OK"
    using Recover_returns_OK by blast
  ultimately show ?thesis using False by simp
next
  case True
  note keys = this
  have d: "distinct (map (\<lambda>op. ekey (op_entry op)) (entry_ops entries))"
    using keys by (simp add: entry_ops_keys)
  obtain M where M: "MemTable_apply_all (MemTable_new max_size rng) (entry_ops entries) = Some M"
    and get: "\<forall>k s. MemTable_Get M k s = lookup_spec (map op_entry (entry_ops entries)) k s"
    using MemTable_built_Get [OF d, where max_size = max_size and rng = rng] by blast
  have hyps: "\<forall>lg \<in> set logs. (\<forall>p \<in> set (sc_payloads lg). length p \<le> 65535)
      \<and> map decode (sc_payloads lg) = map Some (sc_entries lg)
      \<and> stops_at_tail decode lg"
    using records tails by blast
  have "Recover_segments decode db_path segs (MemTable_new max_size rng, RecoveryStats_new)
     = Some (Status_OK, M,
             (stats_after (concat (map sc_entries logs)) RecoveryStats_new)
               \<lparr>bytes_read := bytes_read RecoveryStats_new
                    + sum_list (map (\<lambda>lg. length (log_file lg)) logs)\<rparr>)"
    using files hyps M [unfolded entries_def] by (rule Recover_segments_logs)
  then have rec: "Recover decode db_path (Segments segs) (MemTable_new max_size rng)
               = Some (Status_OK, M,
                       Some \<lparr>records_read = length entries,
                             bytes_read = sum_list (map (\<lambda>lg. length (log_file lg)) logs),
                             puts_recovered = length [e \<leftarrow> entries. we_type e = kPut],
                             deletes_recovered = length [e \<leftarrow> entries. we_type e = kDelete],
                             rs_max_sequence = fold max (map we_sequence entries) 0\<rparr>)"
    by (simp add: Recover_def ok_def Status_OK_def stats_after_def RecoveryStats_new_def entries_def)
  have all: "\<forall>r. Recover decode db_path (Segments all_segs) (MemTable_new max_size rng) = Some r
                  \<longrightarrow> fst r = Status_OK"
    using Recover_returns_OK by blast
  have "\<exists>M. MemTable_apply_all (MemTable_new max_size rng) (entry_ops entries) = Some M
           \<and> Recover decode db_path (Segments segs) (MemTable_new max_size rng)
               = Some (Status_OK, M,
                       Some \<lparr>records_read = length entries,
                             bytes_read = sum_list (map (\<lambda>lg. length (log_file lg)) logs),
                             puts_recovered = length [e \<leftarrow> entries. we_type e = kPut],
                             deletes_recovered = length [e \<leftarrow> entries. we_type e = kDelete],
                             rs_max_sequence = fold max (map we_sequence entries) 0\<rparr>)
           \<and> (\<forall>k S. MemTable_Get M k S = lookup_spec (map op_entry (entry_ops entries)) k S)"
    using M rec get by blast
  then show ?thesis using keys all by simp
qed

theorem C3_recover_tolerates_corrupt_tail_witness:
  "stops_at_tail
     (\<lambda>p. if p = [1] then Some \<lparr>we_type = kPut, we_sequence = 1, we_key = [107], we_value = [118]\<rparr>
           else None)
     \<lparr>sc_payloads = [[1]],
      sc_entries = [\<lparr>we_type = kPut, we_sequence = 1, we_key = [107], we_value = [118]\<rparr>],
      sc_tail = [0, 0, 0]\<rparr>
   \<and> (\<exists>M. Recover
        (\<lambda>p. if p = [1] then Some \<lparr>we_type = kPut, we_sequence = 1, we_key = [107], we_value = [118]\<rparr>
              else None)
        ''db''
        (Segments [(1, OpenFails), (2, Readable (WAL_record [1] @ [0, 0, 0]))])
        (MemTable_new 4194304 (\<lambda>n. 0))
      = Some (Status_OK, M,
              Some \<lparr>records_read = 1, bytes_read = 11, puts_recovered = 1, deletes_recovered = 0,
                    rs_max_sequence = 1\<rparr>)
      \<and> MemTable_Get M [107] 5 = LookupResult_Found [118]
      \<and> MemTable_Get M [107] 0 = LookupResult_NotFound)"
proof -
  let ?e = "\<lparr>we_type = kPut, we_sequence = 1, we_key = [107], we_value = [118]\<rparr>"
  let ?d = "\<lambda>p :: bytes. if p = [1] then Some ?e else None"
  let ?lg = "\<lparr>sc_payloads = [[1]], sc_entries = [?e], sc_tail = [0, 0, 0]\<rparr>"
  let ?segs = "[(1 :: nat, OpenFails), (2, Readable (WAL_record [1] @ [0, 0, 0]))]"
  let ?fresh = "MemTable_new 4194304 (\<lambda>n. 0)"
  have lf: "log_file ?lg = WAL_record [1] @ [0, 0, 0]" by (simp add: log_file_def)
  have files: "[seg \<leftarrow> map snd ?segs. readable seg] = map (\<lambda>lg. Readable (log_file lg)) [?lg]"
    by (simp add: lf)
  have records: "\<forall>lg \<in> set [?lg]. (\<forall>p \<in> set (sc_payloads lg). length p \<le> 65535)
                    \<and> map ?d (sc_payloads lg) = map Some (sc_entries lg)"
    by simp
  have stops: "stops_at_tail ?d ?lg"
    by (simp add: stops_at_tail_def lf ReadEntry_def ReadRecord_def kHeaderSize_def
        ReadResult_Error_def Status_Corruption_def IsCorruption_def ok_def Let_def)
  then have tails: "\<forall>lg \<in> set [?lg]. stops_at_tail ?d lg" by simp
  have keys: "distinct (map (\<lambda>e. (we_key e, we_sequence e))
                 [e \<leftarrow> concat (map sc_entries [?lg]). we_type e = kPut \<or> we_type e = kDelete])"
    by simp
  obtain M where rec: "Recover ?d ''db'' (Segments ?segs) ?fresh
               = Some (Status_OK, M,
                       Some \<lparr>records_read = length (concat (map sc_entries [?lg])),
                             bytes_read = sum_list (map (\<lambda>lg. length (log_file lg)) [?lg]),
                             puts_recovered = length [e \<leftarrow> concat (map sc_entries [?lg]). we_type e = kPut],
                             deletes_recovered = length [e \<leftarrow> concat (map sc_entries [?lg]). we_type e = kDelete],
                             rs_max_sequence = fold max (map we_sequence (concat (map sc_entries [?lg]))) 0\<rparr>)"
    and get: "\<forall>k S. MemTable_Get M k S
                = lookup_spec (map op_entry (entry_ops (concat (map sc_entries [?lg])))) k S"
    and ret: "\<forall>r. Recover ?d ''db'' (Segments ?segs) ?fresh = Some r \<longrightarrow> fst r = Status_OK"
    using C3_recover_tolerates_corrupt_tail [where decode = ?d and db_path = "''db''"
        and segs = ?segs and logs = "[?lg]" and max_size = 4194304 and rng = "\<lambda>n. 0"
        and all_segs = ?segs, OF files records tails] keys
    by auto
  have rec': "Recover ?d ''db'' (Segments ?segs) ?fresh
      = Some (Status_OK, M,
              Some \<lparr>records_read = 1, bytes_read = 11, puts_recovered = 1, deletes_recovered = 0,
                    rs_max_sequence = 1\<rparr>)"
    unfolding rec by (simp add: lf)
  have g5: "MemTable_Get M [107] 5 = LookupResult_Found [118]"
    using get by (simp add: lookup_spec_def)
  have g0: "MemTable_Get M [107] 0 = LookupResult_NotFound"
    using get by (simp add: lookup_spec_def)
  show ?thesis using stops rec' g5 g0 by blast
qed

section \<open>Varints, block handles and the footer decode back\<close>

declare PutVarint64.simps [simp del]

lemma and_7f: "x AND 127 = take_bit 7 (x :: 'a :: len word)"
proof -
  have "(127 :: 'a word) = mask 7" by (simp add: mask_eq_exp_minus_1)
  then show ?thesis by (simp add: take_bit_eq_mask)
qed

lemma w128: "(128 :: 'a :: len word) = 2 ^ 7" by simp

lemma bit_128:
  "bit (128 :: 'a :: semiring_bit_operations) n \<longleftrightarrow> possible_bit TYPE('a) n \<and> n = 7"
proof -
  have "bit (128 :: 'a) n = bit (2 ^ 7 :: 'a) n" by simp
  also have "\<dots> = (possible_bit TYPE('a) n \<and> n = 7)" by (simp only: bit_exp_iff)
  finally show ?thesis .
qed

lemma varint_low7:
  "(ucast ((ucast (v OR 128) :: 8 word) AND 127) :: 64 word) = take_bit 7 (v :: 64 word)"
  unfolding and_7f
  by (rule bit_word_eqI) (auto simp add: bit_simps bit_128)

lemma varint_cont_bit: "(ucast ((v :: 64 word) OR 128) :: 8 word) AND 128 \<noteq> 0"
proof
  assume z: "(ucast (v OR 128) :: 8 word) AND 128 = 0"
  have "bit ((ucast (v OR 128) :: 8 word) AND 128) 7" by (simp add: bit_simps bit_128)
  then show False using z by simp
qed

lemma take_drop_bit_7: "take_bit 7 v OR push_bit 7 (drop_bit 7 v) = (v :: 64 word)"
proof (rule bit_word_eqI)
  fix n assume "n < LENGTH(64)"
  show "bit (take_bit 7 v OR push_bit 7 (drop_bit 7 v)) n = bit v n"
    using \<open>n < LENGTH(64)\<close> by (cases "n < 7") (auto simp add: bit_simps)
qed

lemma varint_last_byte:
  assumes "\<not> 128 \<le> (v :: 64 word)"
  shows "(ucast v :: 8 word) AND 128 = 0" and "(ucast (ucast v :: 8 word) :: 64 word) = v"
proof -
  have lt: "v < 2 ^ 7" using assms by simp
  then have tb: "take_bit 7 v = v" by (simp add: take_bit_eq_mask less_mask_eq)
  have b: "\<not> bit v n" if "7 \<le> n" for n
  proof -
    have "bit (take_bit 7 v) n = (n < 7 \<and> bit v n)" by (simp add: bit_simps)
    then show ?thesis using that tb by simp
  qed
  show "(ucast v :: 8 word) AND 128 = 0"
    by (rule bit_word_eqI) (use b [of 7] in \<open>auto simp add: bit_simps bit_128\<close>)
  show "(ucast (ucast v :: 8 word) :: 64 word) = v"
  proof (rule bit_word_eqI)
    fix n assume "n < LENGTH(64)"
    show "bit (ucast (ucast v :: 8 word) :: 64 word) n = bit v n"
      using b [of n] by (cases "n < 8") (auto simp add: bit_simps)
  qed
qed

lemma GetVarint64_PutVarint64_aux:
  "shift = 7 * i \<Longrightarrow> i \<le> 9 \<Longrightarrow> unat v < 2 ^ (64 - shift) \<Longrightarrow>
   GetVarint64 shift val (PutVarint64 v @ rest) = Some (val OR push_bit shift v, rest)"
proof (induction v arbitrary: shift i val rule: PutVarint64.induct)
  case (1 v)
  show ?case
  proof (cases "128 \<le> v")
    case True
    then have "128 \<le> unat v" by (simp add: word_le_nat_alt)
    then have p: "(2::nat) ^ 7 < 2 ^ (64 - shift)" using "1.prems"(3) by simp
    have "7 < 64 - shift"
    proof (rule ccontr)
      assume "\<not> 7 < 64 - shift"
      then have "64 - shift \<le> 7" by simp
      then have "(2::nat) ^ (64 - shift) \<le> 2 ^ 7" by (intro power_increasing) simp_all
      then show False using p by simp
    qed
    then have i8: "i \<le> 8" using "1.prems"(1) by simp
    then have s63: "shift \<le> 63" using "1.prems"(1) by simp
    have u: "unat (drop_bit 7 v) < 2 ^ (64 - (shift + 7))"
    proof -
      have d: "unat (drop_bit 7 v) = unat v div 2 ^ 7" by (simp add: drop_bit_eq_div unat_div)
      have e: "64 - shift = (57 - shift) + 7" using \<open>7 < 64 - shift\<close> by simp
      have "unat v < 2 ^ ((57 - shift) + 7)" using "1.prems"(3) by (simp only: e)
      then have "unat v < 2 ^ (57 - shift) * 2 ^ 7" by (simp only: power_add)
      then have "unat v div 2 ^ 7 < 2 ^ (57 - shift)" by (rule less_mult_imp_div_less)
      moreover have "64 - (shift + 7) = 57 - shift" by simp
      ultimately show ?thesis by (simp only: d)
    qed
    have ih: "GetVarint64 (shift + 7) val' (PutVarint64 (drop_bit 7 v) @ rest)
                = Some (val' OR push_bit (shift + 7) (drop_bit 7 v), rest)" for val'
      using "1.IH" [OF True, of "shift + 7" "Suc i" val'] "1.prems"(1) i8 u by simp
    have pv: "PutVarint64 v = ucast (v OR 128) # PutVarint64 (drop_bit 7 v)"
      using True by (subst PutVarint64.simps) simp
    have "push_bit shift (take_bit 7 v) OR push_bit (shift + 7) (drop_bit 7 v) = push_bit shift v"
    proof -
      have "push_bit shift (take_bit 7 v) OR push_bit (shift + 7) (drop_bit 7 v)
              = push_bit shift (take_bit 7 v OR push_bit 7 (drop_bit 7 v))"
        by (simp add: push_bit_or push_bit_push_bit add.commute)
      then show ?thesis by (simp only: take_drop_bit_7)
    qed
    then show ?thesis
      using s63 by (simp add: pv varint_cont_bit ih varint_low7 or.assoc)
  next
    case False
    have pv: "PutVarint64 v = [ucast v]" using False by (subst PutVarint64.simps) simp
    have s63: "shift \<le> 63" using "1.prems"(1,2) by simp
    show ?thesis using s63 varint_last_byte [OF False] by (simp add: pv)
  qed
qed

lemma GetVarint64_PutVarint64 [simp]:
  "GetVarint64 0 0 (PutVarint64 v @ rest) = Some (v, rest)"
  using GetVarint64_PutVarint64_aux [of 0 0 v 0 rest] unsigned_less [of v, where ?'a = nat]
  by simp

lemma BlockHandle_Decode_Encode [simp]:
  "BlockHandle_Decode (BlockHandle_Encode h @ rest) = Some (h, rest)"
  by (simp add: BlockHandle_Decode_def BlockHandle_Encode_def)

lemma length_PutVarint64_aux:
  "unat v < 2 ^ (7 * k) \<Longrightarrow> 0 < k \<Longrightarrow> length (PutVarint64 v) \<le> k"
proof (induction v arbitrary: k rule: PutVarint64.induct)
  case (1 v)
  show ?case
  proof (cases "128 \<le> v")
    case False
    then have "PutVarint64 v = [ucast v]" by (subst PutVarint64.simps) simp
    then show ?thesis using "1.prems" by simp
  next
    case True
    then have g: "128 \<le> unat v" by (simp add: word_le_nat_alt)
    have k2: "1 < k"
    proof (rule ccontr)
      assume "\<not> 1 < k"
      then have "k = 1" using "1.prems"(2) by simp
      then show False using "1.prems"(1) g by simp
    qed
    then obtain k' where k': "k = Suc k'" "0 < k'" by (cases k) auto
    have "unat v < 2 ^ (7 * k') * 2 ^ 7" using "1.prems"(1) k'(1) by (simp add: power_add mult.commute)
    then have "unat v div 2 ^ 7 < 2 ^ (7 * k')" by (rule less_mult_imp_div_less)
    then have "unat (drop_bit 7 v) < 2 ^ (7 * k')" by (simp add: drop_bit_eq_div unat_div)
    then have "length (PutVarint64 (drop_bit 7 v)) \<le> k'" using "1.IH" [OF True] k'(2) by simp
    moreover have "PutVarint64 v = ucast (v OR 128) # PutVarint64 (drop_bit 7 v)"
      using True by (subst PutVarint64.simps) simp
    ultimately show ?thesis using k'(1) by simp
  qed
qed

lemma length_PutVarint64: "length (PutVarint64 v) \<le> 10"
proof -
  have "unat v < 2 ^ 64" using unsigned_less [of v, where ?'a = nat] by simp
  also have "(2::nat) ^ 64 \<le> 2 ^ (7 * 10)" by simp
  finally show ?thesis by (intro length_PutVarint64_aux) simp_all
qed

lemma length_BlockHandle_Encode: "length (BlockHandle_Encode h) \<le> 20"
  using length_PutVarint64 [of "handle_offset h"] length_PutVarint64 [of "handle_size h"]
  by (simp add: BlockHandle_Encode_def)

lemma unat_of_nat_32: "n < 2 ^ 32 \<Longrightarrow> unat (of_nat n :: 32 word) = n"
  by (simp add: unat_of_nat)

lemma Footer_Decode_Encode:
  assumes mk: "length (min_key f) < 2 ^ 32" and xk: "length (max_key f) < 2 ^ 32"
  shows "Footer_Decode (Footer_Encode f) = Some f"
proof -
  let ?he = "BlockHandle_Encode (index_handle f)"
  let ?be = "BlockHandle_Encode (bloom_handle f)"
  let ?pad = "replicate (kFooterSize - 8 - length (Footer_fields f)) (0 :: 8 word)"
  let ?t5 = "EncodeFixed32 (of_nat (length (max_key f))) @ max_key f @ ?pad @ EncodeFixed64 kSSTableMagic"
  let ?t4 = "EncodeFixed32 (of_nat (length (min_key f))) @ min_key f @ ?t5"
  let ?t3 = "EncodeFixed64 (num_entries f) @ EncodeFixed64 (min_sequence f)
               @ EncodeFixed64 (max_sequence f) @ ?t4"
  let ?t2 = "EncodeFixed32 (of_nat (length ?be)) @ ?be @ ?t3"
  let ?input = "EncodeFixed32 (of_nat (length ?he)) @ ?he @ ?t2"
  have enc: "Footer_Encode f = ?input"
    by (simp add: Footer_Encode_def Footer_fields_def Let_def)
  have len: "\<not> length ?input < kFooterSize"
    using length_Footer_Encode [of f] unfolding enc by (simp add: kFooterSize_def)
  have hl: "unat (of_nat (length ?he) :: 32 word) = length ?he"
    using length_BlockHandle_Encode [of "index_handle f"] by (intro unat_of_nat_32) simp
  have bl: "unat (of_nat (length ?be) :: 32 word) = length ?be"
    using length_BlockHandle_Encode [of "bloom_handle f"] by (intro unat_of_nat_32) simp
  have ml: "unat (of_nat (length (min_key f)) :: 32 word) = length (min_key f)"
    using mk by (rule unat_of_nat_32)
  have xl: "unat (of_nat (length (max_key f)) :: 32 word) = length (max_key f)"
    using xk by (rule unat_of_nat_32)
  have magic: "DecodeFixed64 (drop (length ?input - 8) ?input) = kSSTableMagic"
  proof -
    have "drop (length ?input - 8) ?input = EncodeFixed64 kSSTableMagic @ []"
      by simp
    then show ?thesis by (simp only: DecodeFixed64_EncodeFixed64)
  qed
  have d1: "DecodeFixed32 ?input = of_nat (length ?he)" by simp
  have d2: "drop 4 ?input = ?he @ ?t2" by simp
  have bh1: "BlockHandle_Decode (take (length ?he) (?he @ ?t2)) = Some (index_handle f, [])"
    using BlockHandle_Decode_Encode [of "index_handle f" "[]"] by simp
  have d3: "drop (length ?he) (?he @ ?t2) = ?t2" by simp
  have d4: "DecodeFixed32 ?t2 = of_nat (length ?be)" by simp
  have d5: "drop 4 ?t2 = ?be @ ?t3" by simp
  have bh2: "BlockHandle_Decode (take (length ?be) (?be @ ?t3)) = Some (bloom_handle f, [])"
    using BlockHandle_Decode_Encode [of "bloom_handle f" "[]"] by simp
  have d6: "drop (length ?be) (?be @ ?t3) = ?t3" by simp
  have n1: "DecodeFixed64 ?t3 = num_entries f" by simp
  have n2: "DecodeFixed64 (drop 8 ?t3) = min_sequence f" by simp
  have n3: "DecodeFixed64 (drop 16 ?t3) = max_sequence f" by simp
  have d7: "drop 24 ?t3 = ?t4" by simp
  have k1: "DecodeFixed32 ?t4 = of_nat (length (min_key f))" by simp
  have d8: "drop 4 ?t4 = min_key f @ ?t5" by simp
  have k2: "take (length (min_key f)) (min_key f @ ?t5) = min_key f" by simp
  have d9: "drop (length (min_key f)) (min_key f @ ?t5) = ?t5" by simp
  have k3: "DecodeFixed32 ?t5 = of_nat (length (max_key f))" by simp
  have k4: "take (length (max_key f)) (drop 4 ?t5) = max_key f" by simp
  show ?thesis
    unfolding enc Footer_Decode_def
    by (simp only: len magic d1 d2 hl bh1 d3 d4 d5 bl bh2 d6 n1 n2 n3 d7 k1 d8 ml k2 d9 k3 xl k4
        Let_def if_False option.case prod.case simp_thms)
       simp
qed

section \<open>Finishing an SSTable without entries\<close>

lemma WriteRaw_loop_complete:
  "data \<noteq> [] \<Longrightarrow> length data \<le> k \<Longrightarrow>
   WriteRaw_loop (Written k # answers) file off data
     = Some (Status_OK, file @ data, off + of_nat (length data), answers)"
  by (cases data) (simp_all add: min_def)

lemma WriteRaw_complete:
  "data \<noteq> [] \<Longrightarrow> length data \<le> k \<Longrightarrow>
   WriteRaw (Written k # answers) w data
     = Some (Status_OK, w\<lparr>sw_file := sw_file w @ data, sw_offset := sw_offset w + of_nat (length data)\<rparr>, answers)"
  by (simp add: WriteRaw_def WriteRaw_loop_complete)

lemma length_AddTrailer [simp]: "length (AddTrailer b t) = length b + 5"
  by (simp add: AddTrailer_def Let_def)

lemma IndexBlockBuilder_new_Some:
  "IndexBlockBuilder_new =
     Some \<lparr>ib_block_builder =
             \<lparr>bb_buffer = [], bb_restarts = [0], bb_last_key = [], bb_restart_interval = 1,
              bb_counter = 0, bb_finished = False\<rparr>,
           ib_entry_count = 0\<rparr>"
  by (simp add: IndexBlockBuilder_new_def BlockBuilder_new_def)

lemma empty_index_block_bytes:
  "AddTrailer (EncodeFixed32 0 @ EncodeFixed32 1) kIndex
     = [0, 0, 0, 0, 1, 0, 0, 0, 1] @ EncodeFixed32 (CRC32_Compute [0, 0, 0, 0, 1, 0, 0, 0, 1])"
  by (simp add: AddTrailer_def EncodeFixed32_def Let_def)

lemma VerifyTrailer_AddTrailer: "VerifyTrailer (AddTrailer b t) t"
proof -
  have "drop (length b) (AddTrailer b t) = BlockType_code t # EncodeFixed32 (CRC32_Compute (b @ [BlockType_code t]))"
    by (simp add: AddTrailer_def Let_def)
  moreover have "take (length b + 1) (AddTrailer b t) = b @ [BlockType_code t]"
    by (simp add: AddTrailer_def Let_def)
  ultimately show ?thesis
    using DecodeFixed32_EncodeFixed32 [of "CRC32_Compute (b @ [BlockType_code t])" "[]"]
    by (simp add: VerifyTrailer_def kBlockTrailerSize_def Let_def)
qed

lemma replicate_12_zero: "replicate 12 (0 :: 8 word) = [0, 0, 0, 0, 0, 0, 0, 0, 0, 0, 0, 0]"
  by (simp add: numeral_eq_Suc)

lemma Footer_empty_bytes:
  "Footer_Encode empty_footer
     = [2, 0, 0, 0, 0, 13, 2, 0, 0, 0, 0, 0,
        0, 0, 0, 0, 0, 0, 0, 0, 0xFF, 0xFF, 0xFF, 0xFF, 0xFF, 0xFF, 0xFF, 0xFF,
        0, 0, 0, 0, 0, 0, 0, 0, 0, 0, 0, 0, 0, 0, 0, 0,
        0, 0, 0, 0, 0, 0, 0, 0, 0, 0, 0, 0,
        0x31, 0x65, 0x6C, 0x62, 0x61, 0x54, 0x53, 0x53]"
  by (simp add: Footer_Encode_def Footer_fields_def empty_footer_def BlockHandle_Encode_def
      PutVarint64.simps EncodeFixed32_def EncodeFixed64_def kFooterSize_def kSSTableMagic_def
      upt_conv_Cons Let_def replicate_12_zero)

lemma length_Footer_empty: "length (Footer_Encode empty_footer) = 64"
  by (simp add: length_Footer_Encode Footer_fields_def empty_footer_def BlockHandle_Encode_def
      PutVarint64.simps Let_def)

lemma WriteIndexBlock_empty:
  assumes "13 \<le> n1" "IndexBlockBuilder_new = Some (sw_index_builder w)" "sw_offset w = 0"
  shows "\<exists>w'. WriteIndexBlock (Written n1 # answers) w
           = Some (Status_OK, \<lparr>handle_offset = 0, handle_size = 13\<rparr>, w', answers)
         \<and> sw_file w' = sw_file w @ AddTrailer (EncodeFixed32 0 @ EncodeFixed32 1) kIndex
         \<and> sw_offset w' = 13
         \<and> sw_fd w' = sw_fd w \<and> sw_num_entries w' = sw_num_entries w
         \<and> sw_first_key w' = sw_first_key w \<and> sw_last_key w' = sw_last_key w
         \<and> sw_min_sequence w' = sw_min_sequence w \<and> sw_max_sequence w' = sw_max_sequence w
         \<and> sw_use_bloom_filter w' = sw_use_bloom_filter w
         \<and> sw_bloom_builder w' = sw_bloom_builder w"
proof -
  let ?bb = "\<lparr>bb_buffer = [], bb_restarts = [0], bb_last_key = [], bb_restart_interval = 1,
              bb_counter = 0, bb_finished = False\<rparr>"
  let ?ib = "\<lparr>ib_block_builder = ?bb, ib_entry_count = 0\<rparr>"
  have ib: "sw_index_builder w = ?ib" using assms(2) by (simp add: IndexBlockBuilder_new_Some)
  have fin: "IndexBlockBuilder_Finish ?ib
          = (EncodeFixed32 0 @ EncodeFixed32 1,
             ?ib\<lparr>ib_block_builder :=
               ?bb\<lparr>bb_buffer := EncodeFixed32 0 @ EncodeFixed32 1, bb_finished := True\<rparr>\<rparr>)"
    by (simp add: IndexBlockBuilder_Finish_def BlockBuilder_Finish_def Let_def)
  have ne: "AddTrailer (EncodeFixed32 0 @ EncodeFixed32 1) kIndex \<noteq> []"
    by (simp add: AddTrailer_def Let_def)
  have le: "length (AddTrailer (EncodeFixed32 0 @ EncodeFixed32 1) kIndex) \<le> n1"
    using assms(1) by simp
  show ?thesis
    unfolding WriteIndexBlock_def ib fin
    by (simp add: Let_def WriteRaw_complete [OF ne le] assms(3))
qed

text \<open>
  C10. The constructor of the writer returns when the restart interval is at least 1
  and aborts otherwise (the block builder asserts it); the other options are
  arbitrary. A writer that was constructed and opened, and on which
  \<^verbatim>\<open>Finish\<close> is called after no \<^verbatim>\<open>Add\<close>, when the two \<^verbatim>\<open>write\<close> calls are complete and
  \<^verbatim>\<open>fsync\<close> and \<^verbatim>\<open>close\<close> succeed: \<^verbatim>\<open>Finish\<close> returns OK. The file is the empty index
  block (the restart array \<open>[0]\<close> and its length 1, eight bytes), its trailer (the type
  byte \<open>0x01\<close> of an index block and the checksum of these nine bytes), which
  \<^verbatim>\<open>VerifyTrailer\<close> accepts, and then the footer. The footer has 64 bytes, which are
  given, and decodes to \<open>num_entries = 0\<close>, \<open>min_sequence = 2^64 - 1\<close>,
  \<open>max_sequence = 0\<close>, empty keys, the bloom handle \<open>(0, 0)\<close> and the index handle
  \<open>(0, 13)\<close>.
\<close>

theorem C10_finish_without_entries:
  fixes path :: string and block_size :: nat and restart_interval bits_per_key :: int
    and use_bloom_filter :: bool and n1 n2 :: nat and rest :: "write_result list"
  assumes n1: "13 \<le> n1" and n2: "64 \<le> n2"
  shows "if 1 \<le> restart_interval
         then \<exists>w0 st w'.
                   SSTableWriter_new path block_size restart_interval use_bloom_filter bits_per_key
                     = Some w0
                 \<and> SSTableWriter_Finish (Written n1 # Written n2 # rest) True True
                       (snd (SSTableWriter_Open True w0))
                     = Some (Status_OK, Some st, w', rest)
                 \<and> sw_file w'
                     = [0, 0, 0, 0, 1, 0, 0, 0, 1]
                       @ EncodeFixed32 (CRC32_Compute [0, 0, 0, 0, 1, 0, 0, 0, 1])
                       @ Footer_Encode empty_footer
                 \<and> VerifyTrailer (take 13 (sw_file w')) kIndex
                 \<and> Footer_Encode empty_footer
                     = [2, 0, 0, 0, 0, 13, 2, 0, 0, 0, 0, 0,
                        0, 0, 0, 0, 0, 0, 0, 0, 0xFF, 0xFF, 0xFF, 0xFF, 0xFF, 0xFF, 0xFF, 0xFF,
                        0, 0, 0, 0, 0, 0, 0, 0, 0, 0, 0, 0, 0, 0, 0, 0,
                        0, 0, 0, 0, 0, 0, 0, 0, 0, 0, 0, 0,
                        0x31, 0x65, 0x6C, 0x62, 0x61, 0x54, 0x53, 0x53]
                 \<and> length (sw_file w') = 13 + 64
                 \<and> Footer_Decode (drop 13 (sw_file w')) = Some empty_footer
                 \<and> stats_num_entries st = 0 \<and> min_seq st = kMaxSequenceNumber \<and> max_seq st = 0
         else SSTableWriter_new path block_size restart_interval use_bloom_filter bits_per_key
                = None"
proof (cases "1 \<le> restart_interval")
  case False
  then have "SSTableWriter_new path block_size restart_interval use_bloom_filter bits_per_key = None"
    by (simp add: SSTableWriter_new_def BlockBuilder_new_def)
  then show ?thesis using False by simp
next
  case True
  note ri = this
  let ?bb = "\<lparr>bb_buffer = [], bb_restarts = [0], bb_last_key = [],
              bb_restart_interval = restart_interval, bb_counter = 0, bb_finished = False\<rparr>"
  let ?w0 = "the (SSTableWriter_new path block_size restart_interval use_bloom_filter bits_per_key)"
  define w where "w = snd (SSTableWriter_Open True ?w0)"
  let ?idx = "AddTrailer (EncodeFixed32 0 @ EncodeFixed32 1) kIndex"
  have new: "SSTableWriter_new path block_size restart_interval use_bloom_filter bits_per_key
               = Some ?w0"
    using ri by (simp add: SSTableWriter_new_def BlockBuilder_new_def IndexBlockBuilder_new_Some)
  have w: "sw_fd w = 3" "sw_offset w = 0" "sw_file w = []"
    "IndexBlockBuilder_new = Some (sw_index_builder w)"
    "BlockBuilder_Empty (sw_data_block w)" "bf_num_keys (sw_bloom_builder w) = 0"
    "sw_num_entries w = 0" "sw_first_key w = []" "sw_last_key w = []"
    "sw_min_sequence w = kMaxSequenceNumber" "sw_max_sequence w = 0"
    using ri
    by (simp_all add: w_def SSTableWriter_Open_def SSTableWriter_new_def BlockBuilder_Empty_def
        BlockBuilder_new_def IndexBlockBuilder_new_Some BloomFilterBuilder_new_def)
  obtain w1 where i: "WriteIndexBlock (Written n1 # Written n2 # rest) w
           = Some (Status_OK, \<lparr>handle_offset = 0, handle_size = 13\<rparr>, w1, Written n2 # rest)"
    and w1: "sw_file w1 = sw_file w @ ?idx" "sw_offset w1 = 13"
         "sw_fd w1 = sw_fd w" "sw_num_entries w1 = sw_num_entries w"
         "sw_first_key w1 = sw_first_key w" "sw_last_key w1 = sw_last_key w"
         "sw_min_sequence w1 = sw_min_sequence w" "sw_max_sequence w1 = sw_max_sequence w"
         "sw_use_bloom_filter w1 = sw_use_bloom_filter w"
         "sw_bloom_builder w1 = sw_bloom_builder w"
    using WriteIndexBlock_empty [OF n1 w(4) w(2), of "Written n2 # rest"] by blast
  have b: "WriteBloomFilter (Written n2 # rest) w1
             = Some (Status_OK, \<lparr>handle_offset = 0, handle_size = 0\<rparr>, w1, Written n2 # rest)"
    using w(6) w1(10) by (simp add: WriteBloomFilter_def)
  have ft: "writer_footer w1 \<lparr>handle_offset = 0, handle_size = 13\<rparr> \<lparr>handle_offset = 0, handle_size = 0\<rparr>
              = empty_footer"
    using w w1 by (simp add: writer_footer_def empty_footer_def kMaxSequenceNumber_def)
  have fl: "length (Footer_Encode empty_footer) = 64" by (rule length_Footer_empty)
  then have fne: "Footer_Encode empty_footer \<noteq> []" by auto
  have fle: "length (Footer_Encode empty_footer) \<le> n2" using n2 fl by simp
  have f: "WriteFooter (Written n2 # rest) w1 \<lparr>handle_offset = 0, handle_size = 13\<rparr>
             \<lparr>handle_offset = 0, handle_size = 0\<rparr>
           = Some (Status_OK,
                   w1\<lparr>sw_file := sw_file w1 @ Footer_Encode empty_footer,
                      sw_offset := sw_offset w1 + of_nat (length (Footer_Encode empty_footer))\<rparr>,
                   rest)"
    unfolding WriteFooter_def ft using fne fle by (rule WriteRaw_complete)
  have okk: "ok Status_OK" by (simp add: ok_def Status_OK_def)
  have fd: "\<not> sw_fd w < 0" using w(1) by simp
  have dec: "Footer_Decode (Footer_Encode empty_footer) = Some empty_footer"
    by (rule Footer_Decode_Encode) (simp_all add: empty_footer_def)
  have il: "length ?idx = 13" by simp
  have vt: "VerifyTrailer ?idx kIndex" by (rule VerifyTrailer_AddTrailer)
  obtain st w' where fin: "SSTableWriter_Finish (Written n1 # Written n2 # rest) True True w
                    = Some (Status_OK, Some st, w', rest)"
    and content: "sw_file w' = ?idx @ Footer_Encode empty_footer"
    and sts: "stats_num_entries st = 0" "min_seq st = kMaxSequenceNumber" "max_seq st = 0"
    unfolding SSTableWriter_Finish_def
    using fd w(5) i b f okk w w1
    by (simp add: Let_def)
  have tk: "take 13 (sw_file w') = ?idx" and dr: "drop 13 (sw_file w') = Footer_Encode empty_footer"
    using il by (simp_all add: content)
  have len: "length (sw_file w') = 13 + 64" using il fl by (simp add: content)
  have bytes: "sw_file w' = [0, 0, 0, 0, 1, 0, 0, 0, 1]
                 @ EncodeFixed32 (CRC32_Compute [0, 0, 0, 0, 1, 0, 0, 0, 1])
                 @ Footer_Encode empty_footer"
    unfolding content empty_index_block_bytes by simp
  have vt': "VerifyTrailer (take 13 (sw_file w')) kIndex" unfolding tk by (rule vt)
  have dec': "Footer_Decode (drop 13 (sw_file w')) = Some empty_footer" unfolding dr by (rule dec)
  have "\<exists>w0 st w'.
               SSTableWriter_new path block_size restart_interval use_bloom_filter bits_per_key
                 = Some w0
             \<and> SSTableWriter_Finish (Written n1 # Written n2 # rest) True True
                   (snd (SSTableWriter_Open True w0))
                 = Some (Status_OK, Some st, w', rest)
             \<and> sw_file w'
                 = [0, 0, 0, 0, 1, 0, 0, 0, 1]
                   @ EncodeFixed32 (CRC32_Compute [0, 0, 0, 0, 1, 0, 0, 0, 1])
                   @ Footer_Encode empty_footer
             \<and> VerifyTrailer (take 13 (sw_file w')) kIndex
             \<and> Footer_Encode empty_footer
                 = [2, 0, 0, 0, 0, 13, 2, 0, 0, 0, 0, 0,
                    0, 0, 0, 0, 0, 0, 0, 0, 0xFF, 0xFF, 0xFF, 0xFF, 0xFF, 0xFF, 0xFF, 0xFF,
                    0, 0, 0, 0, 0, 0, 0, 0, 0, 0, 0, 0, 0, 0, 0, 0,
                    0, 0, 0, 0, 0, 0, 0, 0, 0, 0, 0, 0,
                    0x31, 0x65, 0x6C, 0x62, 0x61, 0x54, 0x53, 0x53]
             \<and> length (sw_file w') = 13 + 64
             \<and> Footer_Decode (drop 13 (sw_file w')) = Some empty_footer
             \<and> stats_num_entries st = 0 \<and> min_seq st = kMaxSequenceNumber \<and> max_seq st = 0"
    using new fin [unfolded w_def] bytes vt' Footer_empty_bytes len dec' sts by blast
  then show ?thesis using ri by simp
qed

theorem C10_finish_without_entries_witness:
  "(1 :: int) \<le> 16 \<and> (13 :: nat) \<le> 13 \<and> (64 :: nat) \<le> 64
   \<and> (\<exists>w0 st w'. SSTableWriter_new ''000001.sst'' 4096 16 True 10 = Some w0
          \<and> SSTableWriter_Finish [Written 13, Written 64] True True
                (snd (SSTableWriter_Open True w0))
              = Some (Status_OK, Some st, w', [])
          \<and> take 9 (sw_file w') = [0, 0, 0, 0, 1, 0, 0, 0, 1]
          \<and> length (sw_file w') = 77)"
proof -
  have r: "(1 :: int) \<le> 16" and a: "(13 :: nat) \<le> 13" and b: "(64 :: nat) \<le> 64" by simp_all
  obtain w0 st w' where
    "SSTableWriter_new ''000001.sst'' 4096 16 True 10 = Some w0"
    "SSTableWriter_Finish [Written 13, Written 64] True True (snd (SSTableWriter_Open True w0))
      = Some (Status_OK, Some st, w', [])"
    "sw_file w' = [0, 0, 0, 0, 1, 0, 0, 0, 1]
                 @ EncodeFixed32 (CRC32_Compute [0, 0, 0, 0, 1, 0, 0, 0, 1])
                 @ Footer_Encode empty_footer"
    "length (sw_file w') = 13 + 64"
    using C10_finish_without_entries [OF a b, where path = "''000001.sst''" and block_size = 4096
        and restart_interval = 16 and use_bloom_filter = True and bits_per_key = 10
        and rest = "[]"] r
    by auto
  then show ?thesis by auto
qed

text \<open>
  C4 at the failing input: the footer of scenario E2E-5 encodes to 70 bytes, not 64;
  decoding all 70 bytes still returns the footer.
\<close>

theorem C4_footer_longer_than_64:
  "length (Footer_Encode
     \<lparr>index_handle = \<lparr>handle_offset = 0, handle_size = 0\<rparr>,
      bloom_handle = \<lparr>handle_offset = 0, handle_size = 0\<rparr>,
      num_entries = 1000, min_sequence = 1, max_sequence = 1000,
      min_key = bytes_of ''key000000'', max_key = bytes_of ''key000999''\<rparr>) = 70
   \<and> Footer_Decode (Footer_Encode
     \<lparr>index_handle = \<lparr>handle_offset = 0, handle_size = 0\<rparr>,
      bloom_handle = \<lparr>handle_offset = 0, handle_size = 0\<rparr>,
      num_entries = 1000, min_sequence = 1, max_sequence = 1000,
      min_key = bytes_of ''key000000'', max_key = bytes_of ''key000999''\<rparr>)
     = Some \<lparr>index_handle = \<lparr>handle_offset = 0, handle_size = 0\<rparr>,
      bloom_handle = \<lparr>handle_offset = 0, handle_size = 0\<rparr>,
      num_entries = 1000, min_sequence = 1, max_sequence = 1000,
      min_key = bytes_of ''key000000'', max_key = bytes_of ''key000999''\<rparr>"
proof -
  let ?f = "\<lparr>index_handle = \<lparr>handle_offset = 0, handle_size = 0\<rparr>,
      bloom_handle = \<lparr>handle_offset = 0, handle_size = 0\<rparr>,
      num_entries = 1000, min_sequence = 1, max_sequence = 1000,
      min_key = bytes_of ''key000000'', max_key = bytes_of ''key000999''\<rparr>"
  have "length (Footer_Encode ?f) = 70"
    by (simp add: length_Footer_Encode Footer_fields_def BlockHandle_Encode_def PutVarint64.simps
        bytes_of_def Let_def)
  moreover have "Footer_Decode (Footer_Encode ?f) = Some ?f"
    by (rule Footer_Decode_Encode) (simp_all add: bytes_of_def)
  ultimately show ?thesis by (rule conjI)
qed

end
